theory Spec2Isabelle
  imports Complex_Main "HOL-Library.Word"
begin

unbundle bit_operations_syntax

section \<open>Constants of lilac\_mesh.h\<close>

definition LILAC_MESH_MAX_C :: int where
  "LILAC_MESH_MAX_C = 16384"

definition LILAC_MESH_MAX_POINTS :: int where
  "LILAC_MESH_MAX_POINTS = 1024"

definition LILAC_MESH_MAX_TRIS :: int where
  "LILAC_MESH_MAX_TRIS = 1024"

section \<open>parseNumber\<close>

text \<open>
  The argument is the sequence of characters of the C string before its terminating
  NUL, so the \<open>for\<close> loop ends when the list is exhausted.  \<open>result\<close> is an
  \<open>int32_t\<close>; it is at most \<open>LILAC_MESH_MAX_C\<close> whenever the loop body is
  entered, so \<open>result * 10 + c\<close> stays below \<open>163850\<close> and never wraps: it is
  modelled as an unbounded \<open>int\<close>.  A \<open>char\<close> outside \<open>'0'..'9'\<close> is rejected
  whether the platform's \<open>char\<close> is signed or not.
\<close>

fun parseNumber_loop :: "int \<Rightarrow> char list \<Rightarrow> int" where
  "parseNumber_loop result [] = result"
| "parseNumber_loop result (ch # pstr) =
     (let c = (of_char ch :: int) in
      if c < of_char CHR ''0'' \<or> c > of_char CHR ''9'' then - 1
      else
        let c = c - of_char CHR ''0'';
            result = (result * 10) + c
        in if result > LILAC_MESH_MAX_C then - 1
           else parseNumber_loop result pstr)"

definition parseNumber :: "char list \<Rightarrow> int" where
  "parseNumber pstr =
     (let result = (if pstr = [] then - 1 else 0)
      in if result \<ge> 0 then parseNumber_loop result pstr else result)"

subsection \<open>The decimal parse rule as the specification words it\<close>

definition is_ascii_digit :: "char \<Rightarrow> bool" where
  "is_ascii_digit ch =
     ((of_char CHR ''0'' :: nat) \<le> of_char ch \<and> (of_char ch :: nat) \<le> of_char CHR ''9'')"

definition digit_value :: "char \<Rightarrow> nat" where
  "digit_value ch = of_char ch - of_char CHR ''0''"

definition decimal_from :: "nat \<Rightarrow> char list \<Rightarrow> nat" where
  "decimal_from acc s = foldl (\<lambda>a ch. 10 * a + digit_value ch) acc s"

definition decimal_value :: "char list \<Rightarrow> nat" where
  "decimal_value s = decimal_from 0 s"

definition spec_parse_ok :: "char list \<Rightarrow> bool" where
  "spec_parse_ok s = (s \<noteq> [] \<and> list_all is_ascii_digit s \<and> decimal_value s \<le> 16384)"

section \<open>Error codes of lilac\_mesh.h\<close>

definition LILAC_MESH_ERR_OK :: int where "LILAC_MESH_ERR_OK = 0"
definition LILAC_MESH_ERR_REM :: int where "LILAC_MESH_ERR_REM = 1"
definition LILAC_MESH_ERR_PUNDEF :: int where "LILAC_MESH_ERR_PUNDEF = 2"
definition LILAC_MESH_ERR_TUNDEF :: int where "LILAC_MESH_ERR_TUNDEF = 3"
definition LILAC_MESH_ERR_ORPHAN :: int where "LILAC_MESH_ERR_ORPHAN = 4"
definition LILAC_MESH_ERR_ETYPE :: int where "LILAC_MESH_ERR_ETYPE = 5"
definition LILAC_MESH_ERR_NUMBER :: int where "LILAC_MESH_ERR_NUMBER = 6"
definition LILAC_MESH_ERR_OVERFL :: int where "LILAC_MESH_ERR_OVERFL = 7"
definition LILAC_MESH_ERR_BADOP :: int where "LILAC_MESH_ERR_BADOP = 8"
definition LILAC_MESH_ERR_UNDERF :: int where "LILAC_MESH_ERR_UNDERF = 9"
definition LILAC_MESH_ERR_NOSIG :: int where "LILAC_MESH_ERR_NOSIG = 10"
definition LILAC_MESH_ERR_SIGVER :: int where "LILAC_MESH_ERR_SIGVER = 11"
definition LILAC_MESH_ERR_NODIM :: int where "LILAC_MESH_ERR_NODIM = 12"
definition LILAC_MESH_ERR_BADDIM :: int where "LILAC_MESH_ERR_BADDIM = 13"
definition LILAC_MESH_ERR_DIMVAL :: int where "LILAC_MESH_ERR_DIMVAL = 14"
definition LILAC_MESH_ERR_PCOUNT :: int where "LILAC_MESH_ERR_PCOUNT = 15"
definition LILAC_MESH_ERR_TCOUNT :: int where "LILAC_MESH_ERR_TCOUNT = 16"
definition LILAC_MESH_ERR_NORMDA :: int where "LILAC_MESH_ERR_NORMDA = 17"
definition LILAC_MESH_ERR_NORM2P :: int where "LILAC_MESH_ERR_NORM2P = 18"
definition LILAC_MESH_ERR_PTOVER :: int where "LILAC_MESH_ERR_PTOVER = 19"
definition LILAC_MESH_ERR_PTREF :: int where "LILAC_MESH_ERR_PTREF = 20"
definition LILAC_MESH_ERR_VXDUP :: int where "LILAC_MESH_ERR_VXDUP = 21"
definition LILAC_MESH_ERR_VXORD :: int where "LILAC_MESH_ERR_VXORD = 22"
definition LILAC_MESH_ERR_ORIENT :: int where "LILAC_MESH_ERR_ORIENT = 23"
definition LILAC_MESH_ERR_TRSORT :: int where "LILAC_MESH_ERR_TRSORT = 24"
definition LILAC_MESH_ERR_DUPEDG :: int where "LILAC_MESH_ERR_DUPEDG = 25"
definition LILAC_MESH_ERR_TROVER :: int where "LILAC_MESH_ERR_TROVER = 26"

lemmas err_codes =
  LILAC_MESH_ERR_OK_def LILAC_MESH_ERR_REM_def LILAC_MESH_ERR_PUNDEF_def
  LILAC_MESH_ERR_TUNDEF_def LILAC_MESH_ERR_ORPHAN_def LILAC_MESH_ERR_ETYPE_def
  LILAC_MESH_ERR_NUMBER_def LILAC_MESH_ERR_OVERFL_def LILAC_MESH_ERR_BADOP_def
  LILAC_MESH_ERR_UNDERF_def LILAC_MESH_ERR_NOSIG_def LILAC_MESH_ERR_SIGVER_def
  LILAC_MESH_ERR_NODIM_def LILAC_MESH_ERR_BADDIM_def LILAC_MESH_ERR_DIMVAL_def
  LILAC_MESH_ERR_PCOUNT_def LILAC_MESH_ERR_TCOUNT_def LILAC_MESH_ERR_NORMDA_def
  LILAC_MESH_ERR_NORM2P_def LILAC_MESH_ERR_PTOVER_def LILAC_MESH_ERR_PTREF_def
  LILAC_MESH_ERR_VXDUP_def LILAC_MESH_ERR_VXORD_def LILAC_MESH_ERR_ORIENT_def
  LILAC_MESH_ERR_TRSORT_def LILAC_MESH_ERR_DUPEDG_def LILAC_MESH_ERR_TROVER_def

section \<open>The usage map\<close>

text \<open>
  \<open>USAGE_MAP\<close> of lilac\_mesh.c.  The two dynamically allocated bitmaps are lists of
  32-bit words; a \<open>NULL\<close> pointer is the empty list.  The field \<open>point_count\<close> of
  the C structure is named \<open>um_point_count\<close> here, since the mesh structure has a
  field of the same name.  A call of \<open>abort()\<close> is the result \<open>None\<close>.  All
  \<open>int32_t\<close> quantities stay below \<open>1024 * 1024 + 1024\<close> once the range checks have
  passed, so they are unbounded \<open>int\<close>s; on non-negative operands C's \<open>/\<close> and
  \<open>%\<close> are \<open>div\<close> and \<open>mod\<close>.
\<close>

record USAGE_MAP =
  pPointUse :: "32 word list"
  pEdgeUse :: "32 word list"
  um_point_count :: int

definition usage_map_init :: USAGE_MAP where
  "usage_map_init = \<lparr>pPointUse = [], pEdgeUse = [], um_point_count = 0\<rparr>"

definition usage_map_reset :: "USAGE_MAP \<Rightarrow> USAGE_MAP" where
  "usage_map_reset pM = pM\<lparr>pPointUse := [], pEdgeUse := [], um_point_count := 0\<rparr>"

definition usage_map_dim :: "USAGE_MAP \<Rightarrow> int \<Rightarrow> USAGE_MAP option" where
  "usage_map_dim pM pcount =
     (if pcount < 0 \<or> pcount > LILAC_MESH_MAX_POINTS then None
      else
        let pM = usage_map_reset pM in
        if pcount > 0 then
          let count = pcount div 32;
              count = (if pcount mod 32 \<noteq> 0 then count + 1 else count);
              pM = pM\<lparr>pPointUse := replicate (nat count) 0\<rparr>;
              mcount = pcount * pcount;
              count = mcount div 32;
              count = (if mcount mod 32 \<noteq> 0 then count + 1 else count);
              pM = pM\<lparr>pEdgeUse := replicate (nat count) 0\<rparr>
          in Some (pM\<lparr>um_point_count := pcount\<rparr>)
        else Some pM)"

definition usage_map_point :: "USAGE_MAP \<Rightarrow> int \<Rightarrow> USAGE_MAP option" where
  "usage_map_point pM i =
     (if i < 0 \<or> i \<ge> um_point_count pM then None
      else
        let offs = i div 32;
            shift = 31 - (i mod 32);
            mask = (push_bit (nat shift) 1 :: 32 word)
        in Some (pM\<lparr>pPointUse :=
                   (pPointUse pM)[nat offs := (pPointUse pM ! nat offs) OR mask]\<rparr>))"

definition usage_map_edge :: "USAGE_MAP \<Rightarrow> int \<Rightarrow> int \<Rightarrow> (int \<times> USAGE_MAP) option" where
  "usage_map_edge pM i1 i2 =
     (if i1 < 0 \<or> i1 \<ge> um_point_count pM \<or> i2 < 0 \<or> i2 \<ge> um_point_count pM then None
      else
        let ix = (i1 * um_point_count pM) + i2;
            offs = ix div 32;
            shift = 31 - (ix mod 32);
            mask = (push_bit (nat shift) 1 :: 32 word)
        in if (pEdgeUse pM ! nat offs) AND mask \<noteq> 0 then Some (0, pM)
           else Some (1, pM\<lparr>pEdgeUse :=
                          (pEdgeUse pM)[nat offs := (pEdgeUse pM ! nat offs) OR mask]\<rparr>))"

text \<open>The \<open>for\<close> loop over the fully used blocks, with its \<open>break\<close>.\<close>

function usage_map_orphan_loop :: "32 word list \<Rightarrow> int \<Rightarrow> int \<Rightarrow> int" where
  "usage_map_orphan_loop pu i full_count =
     (if i < full_count then
        (if NOT (pu ! nat i) \<noteq> 0 then 1
         else usage_map_orphan_loop pu (i + 1) full_count)
      else 0)"
  by pat_completeness auto
termination
  by (relation "measure (\<lambda>(pu, i, full_count). nat (full_count - i))") auto

declare usage_map_orphan_loop.simps [simp del]

definition usage_map_orphan :: "USAGE_MAP \<Rightarrow> int" where
  "usage_map_orphan pM =
     (if um_point_count pM > 0 then
        let full_count = um_point_count pM div 32;
            extra_bits = um_point_count pM mod 32;
            mask = (if extra_bits > 0 then (push_bit (nat (32 - extra_bits)) 1 :: 32 word) - 1
                    else 0);
            result = usage_map_orphan_loop (pPointUse pM) 0 full_count
        in if result = 0 \<and> extra_bits > 0 then
             (if NOT ((pPointUse pM ! nat full_count) OR mask) \<noteq> 0 then 1 else result)
           else result
      else 0)"

section \<open>Reading the usage map\<close>

text \<open>
  The bit of point \<open>i\<close> in a point bitmap and of the directed edge \<open>i1 \<rightarrow> i2\<close> in
  an edge bitmap, as the comments of \<open>USAGE_MAP\<close> lay them out (the most
  significant bit of a word comes first), and the shape \<open>usage_map_dim\<close> gives the
  two bitmaps.
\<close>

definition point_bit :: "32 word list \<Rightarrow> int \<Rightarrow> bool" where
  "point_bit pu i = bit (pu ! nat (i div 32)) (nat (31 - i mod 32))"

definition point_marked :: "USAGE_MAP \<Rightarrow> int \<Rightarrow> bool" where
  "point_marked pM i = point_bit (pPointUse pM) i"

definition edge_marked :: "USAGE_MAP \<Rightarrow> int \<Rightarrow> int \<Rightarrow> bool" where
  "edge_marked pM i1 i2 = point_bit (pEdgeUse pM) (i1 * um_point_count pM + i2)"

definition usage_map_wf :: "USAGE_MAP \<Rightarrow> bool" where
  "usage_map_wf pM =
     (0 \<le> um_point_count pM \<and> um_point_count pM \<le> LILAC_MESH_MAX_POINTS \<and>
      int (length (pPointUse pM)) = (um_point_count pM + 31) div 32 \<and>
      int (length (pEdgeUse pM)) = (um_point_count pM * um_point_count pM + 31) div 32)"

text \<open>A sequence of \<open>usage_map_point\<close> calls; an \<open>abort()\<close> ends it.\<close>

fun mark_points :: "USAGE_MAP \<Rightarrow> int list \<Rightarrow> USAGE_MAP option" where
  "mark_points pM [] = Some pM"
| "mark_points pM (i # is) =
     (case usage_map_point pM i of None \<Rightarrow> None | Some pM' \<Rightarrow> mark_points pM' is)"

section \<open>The mesh\<close>

text \<open>
  \<open>LILAC_MESH_POINT\<close> and \<open>LILAC_MESH\<close> of lilac\_mesh.h.  The point fields \<open>x\<close>
  and \<open>y\<close> are named \<open>pt_x\<close> and \<open>pt_y\<close>.  \<open>pTris\<close> is the flat array of
  \<open>tri_count * 3\<close> vertex indices, as in the C structure.
\<close>

record LILAC_MESH_POINT =
  normd :: "16 word"
  norma :: "16 word"
  pt_x :: "16 word"
  pt_y :: "16 word"

record LILAC_MESH =
  pPoints :: "LILAC_MESH_POINT list"
  pTris :: "16 word list"
  point_count :: int
  tri_count :: int

section \<open>The point operation\<close>

text \<open>
  The operations return \<open>None\<close> where the C code calls \<open>abort()\<close>, and otherwise
  the returned status together with everything they may have written: the mesh, the
  counter and \<open>*pErrCode\<close>.  Neither operation compares the counter it is given
  with the arrays of the mesh before it indexes them; an access outside an array, which
  is undefined in C, is the result \<open>None\<close> as well.
\<close>

definition op_p ::
  "16 word \<Rightarrow> 16 word \<Rightarrow> 16 word \<Rightarrow> 16 word \<Rightarrow> LILAC_MESH \<Rightarrow> int \<Rightarrow> int
     \<Rightarrow> (int \<times> LILAC_MESH \<times> int \<times> int) option" where
  "op_p nd na x y pM ptsWritten errCode =
     (if uint nd > LILAC_MESH_MAX_C \<or> uint na > LILAC_MESH_MAX_C \<or>
         uint x > LILAC_MESH_MAX_C \<or> uint y > LILAC_MESH_MAX_C then None
      else
        let status = (1::int);
            (status, errCode) =
              (if nd = 0 \<and> na \<noteq> 0 then (0, LILAC_MESH_ERR_NORMDA) else (status, errCode));
            (status, errCode) =
              (if status \<noteq> 0 \<and> uint na \<ge> LILAC_MESH_MAX_C
               then (0, LILAC_MESH_ERR_NORM2P) else (status, errCode));
            (status, errCode) =
              (if status \<noteq> 0 \<and> ptsWritten \<ge> point_count pM
               then (0, LILAC_MESH_ERR_PTOVER) else (status, errCode))
        in if status \<noteq> 0 then
             (if ptsWritten < 0 \<or> ptsWritten \<ge> int (length (pPoints pM)) then None
              else Some (status,
                         pM\<lparr>pPoints := (pPoints pM)[nat ptsWritten :=
                              \<lparr>normd = nd, norma = na, pt_x = x, pt_y = y\<rparr>]\<rparr>,
                         ptsWritten + 1, errCode))
           else Some (status, pM, ptsWritten, errCode))"

section \<open>The triangle operation\<close>

text \<open>
  The orientation test of \<open>op_t\<close>.  The C code computes in \<open>double\<close>: every
  coordinate is an integer of at most \<open>16384 = 2^14\<close> divided by \<open>2^14\<close>, so each
  quotient, difference and product is a multiple of \<open>2^-28\<close> of magnitude at most
  \<open>2\<close> and is represented exactly; the value \<open>k\<close> is therefore the exact rational
  computed here.
\<close>

definition orient_k :: "LILAC_MESH_POINT \<Rightarrow> LILAC_MESH_POINT \<Rightarrow> LILAC_MESH_POINT \<Rightarrow> rat" where
  "orient_k pA pB pC =
     (let v1x = of_int (uint (pt_x pA)) / of_int LILAC_MESH_MAX_C;
          v1y = of_int (uint (pt_y pA)) / of_int LILAC_MESH_MAX_C;
          v2x = of_int (uint (pt_x pB)) / of_int LILAC_MESH_MAX_C;
          v2y = of_int (uint (pt_y pB)) / of_int LILAC_MESH_MAX_C;
          v3x = of_int (uint (pt_x pC)) / of_int LILAC_MESH_MAX_C;
          v3y = of_int (uint (pt_y pC)) / of_int LILAC_MESH_MAX_C
      in ((v2x - v1x) * (v3y - v1y)) - ((v2y - v1y) * (v3x - v1x)))"

text \<open>
  The checks of \<open>op_t\<close> that precede the usage map (from the test of the vertex
  references to the test for room), threading \<open>status\<close> and \<open>*pErrCode\<close> as the C
  code does.
\<close>

definition op_t_checks ::
  "16 word \<Rightarrow> 16 word \<Rightarrow> 16 word \<Rightarrow> LILAC_MESH \<Rightarrow> int \<Rightarrow> int \<Rightarrow> int
     \<Rightarrow> (int \<times> int) option" where
  "op_t_checks v1 v2 v3 pM ptsWritten triWritten errCode =
     (let status = (1::int);
          (status, errCode) =
            (if uint v1 \<ge> ptsWritten \<or> uint v2 \<ge> ptsWritten \<or> uint v3 \<ge> ptsWritten
             then (0, LILAC_MESH_ERR_PTREF) else (status, errCode));
          (status, errCode) =
            (if status \<noteq> 0 then
               (if v1 = v2 \<or> v2 = v3 \<or> v1 = v3
                then (0, LILAC_MESH_ERR_VXDUP) else (status, errCode))
             else (status, errCode));
          (status, errCode) =
            (if status \<noteq> 0 then
               (if v2 < v1 \<or> v3 < v1
                then (0, LILAC_MESH_ERR_VXORD) else (status, errCode))
             else (status, errCode))
      in
      case (if status \<noteq> 0 then
              (if unat v1 \<ge> length (pPoints pM) \<or> unat v2 \<ge> length (pPoints pM) \<or>
                  unat v3 \<ge> length (pPoints pM) then None
               else
                 let pA = pPoints pM ! unat v1;
                     pB = pPoints pM ! unat v2;
                     pC = pPoints pM ! unat v3;
                     k = orient_k pA pB pC
                 in Some (if \<not> (k > 0) then (0, LILAC_MESH_ERR_ORIENT)
                          else (status, errCode)))
            else Some (status, errCode)) of
        None \<Rightarrow> None
      | Some (status, errCode) \<Rightarrow>
         (case (if status \<noteq> 0 \<and> triWritten > 0 then
                  (if (triWritten - 1) * 3 + 1 \<ge> int (length (pTris pM)) then None
                   else
                     let pt0 = pTris pM ! nat ((triWritten - 1) * 3);
                         pt1 = pTris pM ! nat ((triWritten - 1) * 3 + 1)
                     in Some (if pt0 > v1 then (0, LILAC_MESH_ERR_TRSORT)
                              else if pt0 = v1 then
                                (if pt1 \<ge> v2 then (0, LILAC_MESH_ERR_TRSORT)
                                 else (status, errCode))
                              else (status, errCode)))
                else Some (status, errCode)) of
            None \<Rightarrow> None
          | Some (status, errCode) \<Rightarrow>
              Some (if status \<noteq> 0 \<and> triWritten \<ge> tri_count pM
                    then (0, LILAC_MESH_ERR_TROVER) else (status, errCode))))"

definition op_t ::
  "16 word \<Rightarrow> 16 word \<Rightarrow> 16 word \<Rightarrow> LILAC_MESH \<Rightarrow> int \<Rightarrow> int \<Rightarrow> USAGE_MAP \<Rightarrow> int
     \<Rightarrow> (int \<times> LILAC_MESH \<times> int \<times> USAGE_MAP \<times> int) option" where
  "op_t v1 v2 v3 pM ptsWritten triWritten pUm errCode =
     (if uint v1 > LILAC_MESH_MAX_C \<or> uint v2 > LILAC_MESH_MAX_C \<or>
         uint v3 > LILAC_MESH_MAX_C \<or>
         ptsWritten < 0 \<or> ptsWritten > LILAC_MESH_MAX_POINTS then None
      else
        case op_t_checks v1 v2 v3 pM ptsWritten triWritten errCode of
          None \<Rightarrow> None
        | Some (status, errCode) \<Rightarrow>
        if status = 0 then Some (status, pM, triWritten, pUm, errCode)
        else
          (case usage_map_edge pUm (uint v1) (uint v2) of
             None \<Rightarrow> None
           | Some (r, pUm) \<Rightarrow>
              if r = 0 then Some (0, pM, triWritten, pUm, LILAC_MESH_ERR_DUPEDG)
              else
                (case usage_map_edge pUm (uint v2) (uint v3) of
                   None \<Rightarrow> None
                 | Some (r, pUm) \<Rightarrow>
                    if r = 0 then Some (0, pM, triWritten, pUm, LILAC_MESH_ERR_DUPEDG)
                    else
                      (case usage_map_edge pUm (uint v3) (uint v1) of
                         None \<Rightarrow> None
                       | Some (r, pUm) \<Rightarrow>
                          if r = 0 then Some (0, pM, triWritten, pUm, LILAC_MESH_ERR_DUPEDG)
                          else
                            (case usage_map_point pUm (uint v1) of
                               None \<Rightarrow> None
                             | Some pUm \<Rightarrow>
                                (case usage_map_point pUm (uint v2) of
                                   None \<Rightarrow> None
                                 | Some pUm \<Rightarrow>
                                    (case usage_map_point pUm (uint v3) of
                                       None \<Rightarrow> None
                                     | Some pUm \<Rightarrow>
                                        if triWritten < 0 \<or>
                                           triWritten * 3 + 2 \<ge> int (length (pTris pM))
                                        then None
                                        else
                                          let b = nat (triWritten * 3);
                                              pM = pM\<lparr>pTris :=
                                                (((pTris pM)[b := v1])[b + 1 := v2])[b + 2 := v3]\<rparr>
                                          in Some (status, pM, triWritten + 1, pUm, errCode))))))))"

section \<open>The triangle checks as the specification lists them\<close>

text \<open>
  The signed area on the integer coordinates, the list of checks of the triangle
  operation in the documented order, each with its error code, and the rule that the
  first failing check wins.  The sort check compares with the triangle written last.
\<close>

definition signed_area :: "LILAC_MESH_POINT \<Rightarrow> LILAC_MESH_POINT \<Rightarrow> LILAC_MESH_POINT \<Rightarrow> int" where
  "signed_area pA pB pC =
     (uint (pt_x pB) - uint (pt_x pA)) * (uint (pt_y pC) - uint (pt_y pA)) -
     (uint (pt_y pB) - uint (pt_y pA)) * (uint (pt_x pC) - uint (pt_x pA))"

fun first_failure :: "(bool \<times> int) list \<Rightarrow> int option" where
  "first_failure [] = None"
| "first_failure ((failed, code) # checks) =
     (if failed then Some code else first_failure checks)"

definition spec_tri_prechecks ::
  "16 word \<Rightarrow> 16 word \<Rightarrow> 16 word \<Rightarrow> LILAC_MESH \<Rightarrow> int \<Rightarrow> int \<Rightarrow> (bool \<times> int) list" where
  "spec_tri_prechecks v1 v2 v3 pM ptsWritten triWritten =
     [(uint v1 \<ge> ptsWritten \<or> uint v2 \<ge> ptsWritten \<or> uint v3 \<ge> ptsWritten,
         LILAC_MESH_ERR_PTREF),
      (v1 = v2 \<or> v2 = v3 \<or> v1 = v3, LILAC_MESH_ERR_VXDUP),
      (v2 < v1 \<or> v3 < v1, LILAC_MESH_ERR_VXORD),
      (\<not> signed_area (pPoints pM ! unat v1) (pPoints pM ! unat v2) (pPoints pM ! unat v3) > 0,
         LILAC_MESH_ERR_ORIENT),
      (triWritten > 0 \<and>
       \<not> (pTris pM ! nat ((triWritten - 1) * 3) < v1 \<or>
          (pTris pM ! nat ((triWritten - 1) * 3) = v1 \<and>
           pTris pM ! nat ((triWritten - 1) * 3 + 1) < v2)),
         LILAC_MESH_ERR_TRSORT),
      (triWritten \<ge> tri_count pM, LILAC_MESH_ERR_TROVER)]"

definition spec_tri_checks ::
  "16 word \<Rightarrow> 16 word \<Rightarrow> 16 word \<Rightarrow> LILAC_MESH \<Rightarrow> int \<Rightarrow> int \<Rightarrow> USAGE_MAP
     \<Rightarrow> (bool \<times> int) list" where
  "spec_tri_checks v1 v2 v3 pM ptsWritten triWritten pUm =
     spec_tri_prechecks v1 v2 v3 pM ptsWritten triWritten @
     [(edge_marked pUm (uint v1) (uint v2), LILAC_MESH_ERR_DUPEDG),
      (edge_marked pUm (uint v2) (uint v3), LILAC_MESH_ERR_DUPEDG),
      (edge_marked pUm (uint v3) (uint v1), LILAC_MESH_ERR_DUPEDG)]"

text \<open>
  The last step of the triangle operation as the specification words it: the directed
  edges \<open>v1 \<rightarrow> v2\<close>, \<open>v2 \<rightarrow> v3\<close>, \<open>v3 \<rightarrow> v1\<close> are consumed one after the
  other; consuming an edge that is already used fails and stops, consuming an unused
  edge records it.  The result is whether all edges were consumed, and the edges in use
  afterwards.
\<close>

definition tri_edges :: "16 word \<Rightarrow> 16 word \<Rightarrow> 16 word \<Rightarrow> (int \<times> int) list" where
  "tri_edges v1 v2 v3 = [(uint v1, uint v2), (uint v2, uint v3), (uint v3, uint v1)]"

fun spec_consume_edges ::
  "(int \<times> int) list \<Rightarrow> (int \<Rightarrow> int \<Rightarrow> bool) \<Rightarrow> bool \<times> (int \<Rightarrow> int \<Rightarrow> bool)" where
  "spec_consume_edges [] used = (True, used)"
| "spec_consume_edges ((i, j) # es) used =
     (if used i j then (False, used)
      else spec_consume_edges es (\<lambda>a b. (a = i \<and> b = j) \<or> used a b))"

section \<open>The Shastina parser, as the loader uses it\<close>

text \<open>
  The parser belongs to the external library libshastina; only its interface is used.
  An entity is what \<open>snparser_read\<close> delivers: its \<open>status\<close> is a negative error
  code (\<open>SNENTITY_ERROR\<close> carries it), zero at the end of the input
  (\<open>SNENTITY_EOF\<close>), or a positive entity type, of which the loader distinguishes
  five and treats every other one alike (\<open>SNENTITY_OTHER\<close>).  \<open>pKey\<close> is the text
  carried by a token.  The parser state is the list of entities still to be
  delivered, each with the line count \<open>snparser_count\<close> reports once it has been
  read; an exhausted input delivers \<open>SNENTITY_EOF\<close>.
\<close>

datatype SNENTITY =
    SNENTITY_EOF
  | SNENTITY_BEGIN_META
  | SNENTITY_END_META
  | SNENTITY_META_TOKEN string
  | SNENTITY_NUMERIC string
  | SNENTITY_OPERATION string
  | SNENTITY_OTHER
  | SNENTITY_ERROR int

record SNPARSER =
  sn_rest :: "(SNENTITY \<times> int) list"
  sn_count :: int

definition snparser_alloc :: "(SNENTITY \<times> int) list \<Rightarrow> SNPARSER" where
  "snparser_alloc pIn = \<lparr>sn_rest = pIn, sn_count = 1\<rparr>"

definition snparser_read :: "SNPARSER \<Rightarrow> SNENTITY \<times> SNPARSER" where
  "snparser_read pSn =
     (case sn_rest pSn of
        [] \<Rightarrow> (SNENTITY_EOF, pSn)
      | (ent, line) # rest \<Rightarrow> (ent, \<lparr>sn_rest = rest, sn_count = line\<rparr>))"

definition snparser_count :: "SNPARSER \<Rightarrow> int" where
  "snparser_count pSn = sn_count pSn"

text \<open>\<open>ent.status > 0\<close>.\<close>

fun status_positive :: "SNENTITY \<Rightarrow> bool" where
  "status_positive SNENTITY_EOF = False"
| "status_positive (SNENTITY_ERROR c) = False"
| "status_positive ent = True"

text \<open>\<open>LONG_MAX\<close> of a platform with 64-bit \<open>long\<close>.\<close>

definition LONG_MAX :: int where
  "LONG_MAX = 2 ^ 63 - 1"

definition adjust_line :: "int \<Rightarrow> int" where
  "adjust_line line = (if line < 1 \<or> line \<ge> LONG_MAX then 0 else line)"

section \<open>readHeader\<close>

text \<open>
  Each of the eight blocks of \<open>readHeader\<close> reads an entity, passes a negative status
  on as the error code with the current line, and otherwise tests the entity type;
  \<open>hdr_read\<close> is that block, with the error code and the line (the parser's count,
  or zero) reported on a mismatch.  A failed \<open>readHeader\<close> is \<open>Inl\<close> of the error
  code and the adjusted line; a successful one returns the two counts and the parser.
\<close>

definition hdr_read ::
  "SNPARSER \<Rightarrow> (SNENTITY \<Rightarrow> bool) \<Rightarrow> int \<Rightarrow> bool \<Rightarrow> (int \<times> int) + (SNENTITY \<times> SNPARSER)" where
  "hdr_read pSn expected code with_line =
     (let (ent, pSn) = snparser_read pSn in
      case ent of
        SNENTITY_ERROR c \<Rightarrow> Inl (c, snparser_count pSn)
      | _ \<Rightarrow>
          if expected ent then Inr (ent, pSn)
          else Inl (code, if with_line then snparser_count pSn else 0))"

fun is_meta_token :: "SNENTITY \<Rightarrow> bool" where
  "is_meta_token (SNENTITY_META_TOKEN k) = True"
| "is_meta_token ent = False"

fun pKey :: "SNENTITY \<Rightarrow> string" where
  "pKey (SNENTITY_META_TOKEN k) = k"
| "pKey (SNENTITY_NUMERIC k) = k"
| "pKey (SNENTITY_OPERATION k) = k"
| "pKey ent = []"

definition hdr_fail :: "int \<times> int \<Rightarrow> (int \<times> int) + 'a" where
  "hdr_fail e = Inl (fst e, adjust_line (snd e))"

definition readHeader :: "SNPARSER \<Rightarrow> (int \<times> int) + (int \<times> int \<times> SNPARSER)" where
  "readHeader pSn =
   (case hdr_read pSn (\<lambda>e. e = SNENTITY_BEGIN_META) LILAC_MESH_ERR_NOSIG False of
      Inl e \<Rightarrow> hdr_fail e
    | Inr (ent, pSn) \<Rightarrow>
   (case hdr_read pSn (\<lambda>e. e = SNENTITY_META_TOKEN ''lilac-mesh'') LILAC_MESH_ERR_NOSIG False of
      Inl e \<Rightarrow> hdr_fail e
    | Inr (ent, pSn) \<Rightarrow>
   (case hdr_read pSn (\<lambda>e. e = SNENTITY_END_META) LILAC_MESH_ERR_SIGVER True of
      Inl e \<Rightarrow> hdr_fail e
    | Inr (ent, pSn) \<Rightarrow>
   (case hdr_read pSn (\<lambda>e. e = SNENTITY_BEGIN_META) LILAC_MESH_ERR_NODIM False of
      Inl e \<Rightarrow> hdr_fail e
    | Inr (ent, pSn) \<Rightarrow>
   (case hdr_read pSn (\<lambda>e. e = SNENTITY_META_TOKEN ''dim'') LILAC_MESH_ERR_NODIM False of
      Inl e \<Rightarrow> hdr_fail e
    | Inr (ent, pSn) \<Rightarrow>
   (case hdr_read pSn is_meta_token LILAC_MESH_ERR_BADDIM True of
      Inl e \<Rightarrow> hdr_fail e
    | Inr (ent, pSn) \<Rightarrow>
       let i_pts = parseNumber (pKey ent) in
       if i_pts < 0 then hdr_fail (LILAC_MESH_ERR_DIMVAL, snparser_count pSn)
       else
   (case hdr_read pSn is_meta_token LILAC_MESH_ERR_BADDIM True of
      Inl e \<Rightarrow> hdr_fail e
    | Inr (ent, pSn) \<Rightarrow>
       let i_tris = parseNumber (pKey ent) in
       if i_tris < 0 then hdr_fail (LILAC_MESH_ERR_DIMVAL, snparser_count pSn)
       else
   (case hdr_read pSn (\<lambda>e. e = SNENTITY_END_META) LILAC_MESH_ERR_BADDIM True of
      Inl e \<Rightarrow> hdr_fail e
    | Inr (ent, pSn) \<Rightarrow>
       if i_pts < 0 \<or> i_pts > LILAC_MESH_MAX_POINTS then hdr_fail (LILAC_MESH_ERR_PCOUNT, 0)
       else if i_tris < 0 \<or> i_tris > LILAC_MESH_MAX_TRIS then hdr_fail (LILAC_MESH_ERR_TCOUNT, 0)
       else Inr (i_pts, i_tris, pSn)))))))))"

section \<open>lilac\_mesh\_new\<close>

definition MAX_SN_STACK :: int where
  "MAX_SN_STACK = 16"

text \<open>
  The local variables of \<open>lilac_mesh_new\<close> that its interpreter loop reads and
  writes: \<open>status\<close>, \<open>*pErrCode\<close>, \<open>*pLine\<close>, the mesh, the usage map, the two
  counters, and the interpreter stack \<open>st\<close> with its height.
\<close>

record loader =
  ld_status :: int
  ld_err :: int
  ld_line :: int
  ld_pM :: LILAC_MESH
  ld_um :: USAGE_MAP
  points_written :: int
  tris_written :: int
  st :: "16 word list"
  st_count :: int

definition loader_fail :: "int \<Rightarrow> int \<Rightarrow> loader \<Rightarrow> loader" where
  "loader_fail code line s = s\<lparr>ld_status := 0, ld_err := code, ld_line := line\<rparr>"

text \<open>The branch for a numeric entity; \<open>(uint16_t) i\<close> is \<open>word_of_int i\<close>.\<close>

definition do_numeric :: "string \<Rightarrow> int \<Rightarrow> loader \<Rightarrow> loader" where
  "do_numeric key line s =
     (let i = parseNumber key;
          s = (if i < 0 then loader_fail LILAC_MESH_ERR_NUMBER line s else s);
          s = (if ld_status s \<noteq> 0 \<and> st_count s \<ge> MAX_SN_STACK
               then loader_fail LILAC_MESH_ERR_OVERFL line s else s)
      in if ld_status s \<noteq> 0
         then s\<lparr>st := (st s)[nat (st_count s) := word_of_int i], st_count := st_count s + 1\<rparr>
         else s)"

text \<open>The branch for the operation \<open>p\<close>.\<close>

definition do_p :: "int \<Rightarrow> loader \<Rightarrow> loader option" where
  "do_p line s =
     (let s = (if st_count s < 4 then loader_fail LILAC_MESH_ERR_UNDERF line s else s) in
      if ld_status s \<noteq> 0 then
        (case op_p (st s ! nat (st_count s - 4)) (st s ! nat (st_count s - 3))
                   (st s ! nat (st_count s - 2)) (st s ! nat (st_count s - 1))
                   (ld_pM s) (points_written s) (ld_err s) of
           None \<Rightarrow> None
         | Some (r, pM, ptsWritten, errCode) \<Rightarrow>
             let s = s\<lparr>ld_pM := pM, points_written := ptsWritten, ld_err := errCode\<rparr>;
                 s = (if r = 0 then s\<lparr>ld_status := 0, ld_line := line\<rparr> else s)
             in Some (if ld_status s \<noteq> 0 then s\<lparr>st_count := st_count s - 4\<rparr> else s))
      else Some s)"

text \<open>The branch for the operation \<open>t\<close>.\<close>

definition do_t :: "int \<Rightarrow> loader \<Rightarrow> loader option" where
  "do_t line s =
     (let s = (if st_count s < 3 then loader_fail LILAC_MESH_ERR_UNDERF line s else s) in
      if ld_status s \<noteq> 0 then
        (case op_t (st s ! nat (st_count s - 3)) (st s ! nat (st_count s - 2))
                   (st s ! nat (st_count s - 1))
                   (ld_pM s) (points_written s) (tris_written s) (ld_um s) (ld_err s) of
           None \<Rightarrow> None
         | Some (r, pM, triWritten, pUm, errCode) \<Rightarrow>
             let s = s\<lparr>ld_pM := pM, tris_written := triWritten, ld_um := pUm,
                       ld_err := errCode\<rparr>;
                 s = (if r = 0 then s\<lparr>ld_status := 0, ld_line := line\<rparr> else s)
             in Some (if ld_status s \<noteq> 0 then s\<lparr>st_count := st_count s - 3\<rparr> else s))
      else Some s)"

text \<open>The body of the interpreter loop for one entity of positive status.\<close>

fun do_entity :: "SNENTITY \<Rightarrow> int \<Rightarrow> loader \<Rightarrow> loader option" where
  "do_entity (SNENTITY_NUMERIC key) line s = Some (do_numeric key line s)"
| "do_entity (SNENTITY_OPERATION key) line s =
     (if key = ''p'' then do_p line s
      else if key = ''t'' then do_t line s
      else Some (loader_fail LILAC_MESH_ERR_BADOP line s))"
| "do_entity ent line s = Some (loader_fail LILAC_MESH_ERR_ETYPE line s)"

text \<open>
  The interpreter loop: it reads entities while their status is positive and leaves
  at the first error.  The result is the last entity read, the parser and the loader
  variables; \<open>None\<close> is an \<open>abort()\<close>.
\<close>

function interpreter_loop :: "SNENTITY \<Rightarrow> SNPARSER \<Rightarrow> loader \<Rightarrow> (SNENTITY \<times> SNPARSER \<times> loader) option" where
  "interpreter_loop ent pSn s =
     (if status_positive ent then
        (case do_entity ent (snparser_count pSn) s of
           None \<Rightarrow> None
         | Some s \<Rightarrow>
             if ld_status s = 0 then Some (ent, pSn, s)
             else interpreter_loop (fst (snparser_read pSn)) (snd (snparser_read pSn)) s)
      else Some (ent, pSn, s))"
  by pat_completeness auto
termination
proof (relation "measure (\<lambda>(ent, pSn, s). length (sn_rest pSn) + (if status_positive ent then 1 else 0))")
  show "wf (measure (\<lambda>(ent, pSn, s). length (sn_rest pSn) + (if status_positive ent then 1 else 0)))"
    by simp
next
  fix ent :: SNENTITY and pSn :: SNPARSER and s x2 :: loader
  assume "status_positive ent"
  then show "((fst (snparser_read pSn), snd (snparser_read pSn), x2), ent, pSn, s)
       \<in> measure (\<lambda>(ent, pSn, s). length (sn_rest pSn) + (if status_positive ent then 1 else 0))"
    by (cases "sn_rest pSn") (auto simp add: snparser_read_def split: prod.splits)
qed

declare interpreter_loop.simps [simp del]

text \<open>The checks after the loop, in the order of the C code.\<close>

definition end_checks :: "SNENTITY \<Rightarrow> SNPARSER \<Rightarrow> int \<Rightarrow> int \<Rightarrow> loader \<Rightarrow> loader" where
  "end_checks ent pSn pcount tcount s =
     (let s = (case ent of
                 SNENTITY_ERROR c \<Rightarrow>
                   if ld_status s \<noteq> 0 then loader_fail c (snparser_count pSn) s else s
               | _ \<Rightarrow> s);
          s = (if ld_status s \<noteq> 0 \<and> st_count s > 0
               then loader_fail LILAC_MESH_ERR_REM 0 s else s);
          s = (if ld_status s \<noteq> 0 \<and> points_written s \<noteq> pcount
               then loader_fail LILAC_MESH_ERR_PUNDEF 0 s else s);
          s = (if ld_status s \<noteq> 0 \<and> tris_written s \<noteq> tcount
               then loader_fail LILAC_MESH_ERR_TUNDEF 0 s else s);
          s = (if ld_status s \<noteq> 0 \<and> usage_map_orphan (ld_um s) \<noteq> 0
               then loader_fail LILAC_MESH_ERR_ORPHAN 0 s else s)
      in s)"

text \<open>
  The state in which the loop starts: the usage map dimensioned with the point count,
  the mesh allocated with its two arrays cleared (\<open>calloc\<close>), the stack cleared.
  Allocation is taken to succeed.
\<close>

definition loader_init :: "int \<Rightarrow> int \<Rightarrow> USAGE_MAP \<Rightarrow> loader" where
  "loader_init pcount tcount um =
     \<lparr>ld_status = 1, ld_err = LILAC_MESH_ERR_OK, ld_line = 0,
      ld_pM = \<lparr>pPoints = replicate (nat pcount)
                            \<lparr>normd = 0, norma = 0, pt_x = 0, pt_y = 0\<rparr>,
                pTris = replicate (nat (tcount * 3)) 0,
                point_count = pcount, tri_count = tcount\<rparr>,
      ld_um = um, points_written = 0, tris_written = 0,
      st = replicate (nat MAX_SN_STACK) 0, st_count = 0\<rparr>"

text \<open>
  \<open>lilac_mesh_new\<close> returns the mesh (\<open>None\<close> for \<open>NULL\<close>) with \<open>*pErrCode\<close> and
  \<open>*pLine\<close>; the outer \<open>None\<close> is an \<open>abort()\<close>.
\<close>

definition lilac_mesh_new :: "(SNENTITY \<times> int) list \<Rightarrow> (LILAC_MESH option \<times> int \<times> int) option" where
  "lilac_mesh_new pIn =
     (let pSn = snparser_alloc pIn in
      case readHeader pSn of
        Inl (errCode, line) \<Rightarrow> Some (None, errCode, adjust_line line)
      | Inr (pcount, tcount, pSn) \<Rightarrow>
          (case usage_map_dim usage_map_init pcount of
             None \<Rightarrow> None
           | Some um \<Rightarrow>
               (case interpreter_loop (fst (snparser_read pSn)) (snd (snparser_read pSn))
                       (loader_init pcount tcount um) of
                  None \<Rightarrow> None
                | Some (ent, pSn, s) \<Rightarrow>
                    let s = end_checks ent pSn pcount tcount s in
                    if ld_status s = 0 then Some (None, ld_err s, adjust_line (ld_line s))
                    else Some (Some (ld_pM s), ld_err s, ld_line s))))"

section \<open>What the interpreter loop maintains\<close>

text \<open>
  The two leading vertices of triangle \<open>t\<close> in the flat triangle array, the strict
  lexicographic order on \<open>(v1, v2)\<close> between triangles \<open>t\<close> and \<open>t + 1\<close>, and the
  invariant of the interpreter loop of \<open>lilac_mesh_new\<close> for the declared counts
  \<open>pcount\<close> and \<open>tcount\<close>.
\<close>

definition tri_v1 :: "16 word list \<Rightarrow> nat \<Rightarrow> 16 word" where
  "tri_v1 tris t = tris ! (3 * t)"

definition tri_v2 :: "16 word list \<Rightarrow> nat \<Rightarrow> 16 word" where
  "tri_v2 tris t = tris ! (3 * t + 1)"

definition tri_ascending :: "16 word list \<Rightarrow> nat \<Rightarrow> bool" where
  "tri_ascending tris t =
     (tri_v1 tris t < tri_v1 tris (t + 1) \<or>
      (tri_v1 tris t = tri_v1 tris (t + 1) \<and> tri_v2 tris t < tri_v2 tris (t + 1)))"

definition loader_inv :: "int \<Rightarrow> int \<Rightarrow> loader \<Rightarrow> bool" where
  "loader_inv pcount tcount s =
     (0 \<le> pcount \<and> pcount \<le> LILAC_MESH_MAX_POINTS \<and>
      0 \<le> tcount \<and> tcount \<le> LILAC_MESH_MAX_TRIS \<and>
      usage_map_wf (ld_um s) \<and> um_point_count (ld_um s) = pcount \<and>
      point_count (ld_pM s) = pcount \<and> tri_count (ld_pM s) = tcount \<and>
      length (pTris (ld_pM s)) = 3 * nat tcount \<and>
      0 \<le> points_written s \<and> points_written s \<le> pcount \<and>
      0 \<le> tris_written s \<and> tris_written s \<le> tcount \<and>
      length (st s) = 16 \<and> 0 \<le> st_count s \<and> st_count s \<le> 16 \<and>
      (\<forall>k. k < nat (st_count s) \<longrightarrow> uint (st s ! k) \<le> LILAC_MESH_MAX_C) \<and>
      (\<forall>k. k < 3 * nat (tris_written s) \<longrightarrow>
           uint (pTris (ld_pM s) ! k) < points_written s) \<and>
      (\<forall>j. 0 \<le> j \<and> j < pcount \<longrightarrow>
           (point_marked (ld_um s) j \<longleftrightarrow>
            (\<exists>k. k < 3 * nat (tris_written s) \<and> uint (pTris (ld_pM s) ! k) = j))) \<and>
      (\<forall>t. t + 1 < nat (tris_written s) \<longrightarrow> tri_ascending (pTris (ld_pM s)) t) \<and>
      length (pPoints (ld_pM s)) = nat pcount)"

section \<open>The rasterizer of lilacme2png.c\<close>

text \<open>
  The \<open>double\<close> and \<open>float\<close> quantities of the rasterizer are modelled as real
  numbers: arithmetic is exact, the conversions between \<open>float\<close> and \<open>double\<close> are
  the identity and every value is finite, so that the \<open>isfinite\<close> tests always pass.
  \<open>M_PI\<close> is \<open>pi\<close>.  A call of \<open>raiseErr\<close>, which ends the program, is the
  result \<open>None\<close>.
\<close>

definition IVEC_THETA :: real where "IVEC_THETA = 1 / 100000"

definition MIN_SLERP_ANGLE :: real where "MIN_SLERP_ANGLE = pi / 1024"
definition MAX_SLERP_ANGLE :: real where "MAX_SLERP_ANGLE = pi - (pi / 1024)"

definition INTER_UNDEF :: int where "INTER_UNDEF = 0"
definition INTER_SCALAR :: int where "INTER_SCALAR = 1"
definition INTER_VECTOR :: int where "INTER_VECTOR = 2"

definition IMODE_SCALAR :: int where "IMODE_SCALAR = 1"
definition IMODE_VLINEAR :: int where "IMODE_VLINEAR = 2"
definition IMODE_SLERP :: int where "IMODE_SLERP = 3"
definition IMODE_DOUBLE :: int where "IMODE_DOUBLE = 4"

definition INT32_MAX :: int where "INT32_MAX = 2147483647"
definition INT32_MIN :: int where "INT32_MIN = - 2147483648"

text \<open>
  \<open>VERTEX\<close> and \<open>IVEC\<close>; the fields carry the prefixes \<open>vtx_\<close> and \<open>iv_\<close>.
\<close>

record VERTEX =
  vtx_x :: real
  vtx_y :: real
  vtx_v :: real
  vtx_vx :: real
  vtx_vy :: real
  vtx_vz :: real

record IVEC =
  iv_v1 :: VERTEX
  iv_v2 :: VERTEX
  iv_mode :: int
  iv_angle :: real
  iv_denom :: real

text \<open>
  The static variables of the program that the rasterizer reads and writes.  \<open>pBuf\<close>
  is \<open>None\<close> while it is \<open>NULL\<close>.
\<close>

record raster =
  m_inter :: int
  m_w :: int
  m_h :: int
  pBuf :: "32 word list option"

definition zero_vertex :: VERTEX where
  "zero_vertex = \<lparr>vtx_x = 0, vtx_y = 0, vtx_v = 0, vtx_vx = 0, vtx_vy = 0, vtx_vz = 0\<rparr>"

definition ifloor :: "real \<Rightarrow> int option" where
  "ifloor f =
     (let f = floor f in
      if \<not> (f \<ge> INT32_MIN \<and> f \<le> INT32_MAX) then None else Some f)"

definition iinc :: "int \<Rightarrow> int option" where
  "iinc v = (if v \<ge> INT32_MAX then None else Some (v + 1))"

definition idec :: "int \<Rightarrow> int option" where
  "idec v = (if v \<le> INT32_MIN then None else Some (v - 1))"

text \<open>
  \<open>checkVertex\<close> returns normally exactly when the interpolation mode is set, every
  field being finite.
\<close>

definition checkVertex :: "raster \<Rightarrow> VERTEX \<Rightarrow> bool" where
  "checkVertex s pv = (m_inter s = INTER_SCALAR \<or> m_inter s = INTER_VECTOR)"

text \<open>
  One colour channel of \<open>vertexColor\<close>: the value in floating-point space, the
  test that it is at least one, the conversion to \<open>uint32_t\<close> and the clamping.  A
  conversion of a value beyond the range of \<open>uint32_t\<close> is undefined in C; it wraps
  here, and whatever it yields is clamped.
\<close>

definition color_channel :: "real \<Rightarrow> 32 word" where
  "color_channel f =
     (let gf = real_of_int (floor ((((f + 1) / 2) * 254) + 1));
          gf = (if \<not> (gf \<ge> 1) then 1 else gf);
          gi = (word_of_int (floor gf) :: 32 word)
      in if gi > 255 then 255 else if gi < 1 then 1 else gi)"

definition vertexColor :: "raster \<Rightarrow> VERTEX \<Rightarrow> 32 word option" where
  "vertexColor s pv =
     (if \<not> checkVertex s pv then None
      else if m_inter s = INTER_SCALAR then
        (let gi = color_channel (vtx_v pv)
         in Some (0xff000000 OR (push_bit 16 gi) OR (push_bit 8 gi) OR gi))
      else if m_inter s = INTER_VECTOR then
        (let ri = color_channel (vtx_vx pv);
             gi = color_channel (vtx_vy pv);
             bi = color_channel (vtx_vz pv)
         in Some (0xff000000 OR (push_bit 16 ri) OR (push_bit 8 gi) OR bi))
      else None)"

definition ivec_init :: "raster \<Rightarrow> VERTEX \<Rightarrow> VERTEX \<Rightarrow> IVEC option" where
  "ivec_init s v1 v2 =
     (if \<not> checkVertex s v1 \<or> \<not> checkVertex s v2 then None
      else
        let piv = \<lparr>iv_v1 = v1, iv_v2 = v2, iv_mode = 0, iv_angle = 0, iv_denom = 0\<rparr> in
        if m_inter s = INTER_SCALAR then Some (piv\<lparr>iv_mode := IMODE_SCALAR\<rparr>)
        else if m_inter s = INTER_VECTOR then
          (let angle = (vtx_vx v1 * vtx_vx v2) + (vtx_vy v1 * vtx_vy v2) +
                       (vtx_vz v1 * vtx_vz v2);
               angle = (if \<not> (angle \<ge> - 1) then - 1
                        else if \<not> (angle \<le> 1) then 1 else angle);
               angle = arccos angle
           in if angle \<ge> MIN_SLERP_ANGLE \<and> angle \<le> MAX_SLERP_ANGLE then
                Some (piv\<lparr>iv_mode := IMODE_SLERP, iv_angle := angle, iv_denom := sin angle\<rparr>)
              else if angle < MIN_SLERP_ANGLE then Some (piv\<lparr>iv_mode := IMODE_VLINEAR\<rparr>)
              else if angle > MAX_SLERP_ANGLE then Some (piv\<lparr>iv_mode := IMODE_DOUBLE\<rparr>)
              else None)
        else None)"

text \<open>
  \<open>ivec_compute\<close>.  In slerp mode the quotient by a zero denominator is not finite,
  and the function stops on it.
\<close>

definition ivec_compute :: "IVEC \<Rightarrow> real \<Rightarrow> VERTEX option" where
  "ivec_compute piv t =
     (let t = (if \<not> (t \<ge> 0) then 0 else if \<not> (t \<le> 1) then 1 else t);
          tf = t;
          v1 = iv_v1 piv;
          v2 = iv_v2 piv;
          pr = zero_vertex\<lparr>vtx_x := (vtx_x v1 * (1 - t)) + (vtx_x v2 * t),
                           vtx_y := (vtx_y v1 * (1 - t)) + (vtx_y v2 * t)\<rparr>
      in
      if iv_mode piv = IMODE_SCALAR then
        (let f = (vtx_v v1 * (1 - tf)) + (vtx_v v2 * tf);
             f = (if \<not> (f \<ge> - 1) then - 1 else if \<not> (f \<le> 1) then 1 else f)
         in Some (pr\<lparr>vtx_v := f\<rparr>))
      else if iv_mode piv = IMODE_VLINEAR then
        Some (pr\<lparr>vtx_vx := (vtx_vx v1 * (1 - tf)) + (vtx_vx v2 * tf),
                 vtx_vy := (vtx_vy v1 * (1 - tf)) + (vtx_vy v2 * tf),
                 vtx_vz := (vtx_vz v1 * (1 - tf)) + (vtx_vz v2 * tf)\<rparr>)
      else if iv_mode piv = IMODE_SLERP then
        (let a = sin ((1 - t) * iv_angle piv);
             b = sin (t * iv_angle piv)
         in if iv_denom piv = 0 then None
            else Some (pr\<lparr>vtx_vx := ((a * vtx_vx v1) + (b * vtx_vx v2)) / iv_denom piv,
                          vtx_vy := ((a * vtx_vy v1) + (b * vtx_vy v2)) / iv_denom piv,
                          vtx_vz := ((a * vtx_vz v1) + (b * vtx_vz v2)) / iv_denom piv\<rparr>))
      else if iv_mode piv = IMODE_DOUBLE then
        (if t < 1 / 2 then
           (let t = t * 2;
                a = sin ((1 - t) * (pi / 2));
                b = sin (t * (pi / 2))
            in Some (pr\<lparr>vtx_vx := a * vtx_vx v1,
                        vtx_vy := a * vtx_vy v1,
                        vtx_vz := (a * vtx_vz v1) + b\<rparr>))
         else
           (let t = (t - 1 / 2) * 2;
                a = sin ((1 - t) * (pi / 2));
                b = sin (t * (pi / 2))
            in Some (pr\<lparr>vtx_vx := b * vtx_vx v2,
                        vtx_vy := b * vtx_vy v2,
                        vtx_vz := a + (b * vtx_vz v2)\<rparr>)))
      else None)"

definition ivec_atX :: "IVEC \<Rightarrow> real \<Rightarrow> VERTEX option" where
  "ivec_atX piv x =
     (let (min_x, max_x, reverse) =
            (if vtx_x (iv_v1 piv) \<le> vtx_x (iv_v2 piv)
             then (vtx_x (iv_v1 piv), vtx_x (iv_v2 piv), False)
             else (vtx_x (iv_v2 piv), vtx_x (iv_v1 piv), True))
      in
      if \<not> (x \<ge> min_x \<and> x \<le> max_x) then None
      else
        let denom = max_x - min_x;
            t = (if denom \<ge> IVEC_THETA then (x - min_x) / (max_x - min_x) else 0);
            t = (if reverse then 1 - t else t)
        in case ivec_compute piv t of
             None \<Rightarrow> None
           | Some pr \<Rightarrow> Some (pr\<lparr>vtx_x := x\<rparr>))"

text \<open>
  The pixel loop of \<open>renderSpan\<close>.  \<open>ps\<close> is the index into the buffer of the
  pixel the C pointer addresses; reading or writing outside the buffer, which is
  undefined in C, is the result \<open>None\<close>.
\<close>

definition mask_sentinel :: "32 word" where
  "mask_sentinel = 0xff000000"

function renderSpan_loop ::
  "raster \<Rightarrow> IVEC \<Rightarrow> int \<Rightarrow> int \<Rightarrow> int \<Rightarrow> 32 word list \<Rightarrow> 32 word list option" where
  "renderSpan_loop s iv x x_max ps buf =
     (if x \<le> x_max then
        (if ps < 0 \<or> ps \<ge> int (length buf) then None
         else if buf ! nat ps = mask_sentinel then
           (case iinc x of
              None \<Rightarrow> None
            | Some x' \<Rightarrow> renderSpan_loop s iv x' x_max (ps + 1) buf)
         else
           (case ivec_atX iv (real_of_int x + 1 / 2) of
              None \<Rightarrow> None
            | Some vx \<Rightarrow>
               (case vertexColor s vx of
                  None \<Rightarrow> None
                | Some c \<Rightarrow>
                   (case iinc x of
                      None \<Rightarrow> None
                    | Some x' \<Rightarrow>
                       renderSpan_loop s iv x' x_max (ps + 1) (buf[nat ps := c])))))
      else Some buf)"
  by pat_completeness auto
termination
  by (relation "measure (\<lambda>(s, iv, x, x_max, ps, buf). nat (x_max + 1 - x))")
     (auto simp add: iinc_def split: if_splits)

declare renderSpan_loop.simps [simp del]

definition renderSpan :: "raster \<Rightarrow> VERTEX \<Rightarrow> VERTEX \<Rightarrow> raster option" where
  "renderSpan s v1 v2 =
     (case pBuf s of
        None \<Rightarrow> None
      | Some buf \<Rightarrow>
         if \<not> checkVertex s v1 \<or> \<not> checkVertex s v2 then None
         else if vtx_y v1 \<noteq> vtx_y v2 then None
         else
           let (v1, v2) = (if \<not> (vtx_x v1 \<le> vtx_x v2) then (v2, v1) else (v1, v2)) in
           (case ifloor (vtx_y v1) of
              None \<Rightarrow> None
            | Some y \<Rightarrow>
           (case ifloor (vtx_x v1) of
              None \<Rightarrow> None
            | Some x_min \<Rightarrow>
           (case ifloor (vtx_x v2) of
              None \<Rightarrow> None
            | Some x_max \<Rightarrow>
           (case (if vtx_x v1 - real_of_int x_min > 1 / 2 then iinc x_min else Some x_min) of
              None \<Rightarrow> None
            | Some x_min \<Rightarrow>
           (case (if vtx_x v2 - real_of_int x_max \<le> 1 / 2 then idec x_max else Some x_max) of
              None \<Rightarrow> None
            | Some x_max \<Rightarrow>
               if x_max < x_min then Some s
               else if y < 0 \<or> y \<ge> m_h s then Some s
               else if x_max < 0 \<or> x_min \<ge> m_w s then Some s
               else
                 let x_min = (if x_min < 0 then 0 else x_min);
                     x_max = (if x_max \<ge> m_w s then m_w s - 1 else x_max)
                 in
                 (case ivec_init s v1 v2 of
                    None \<Rightarrow> None
                  | Some iv \<Rightarrow>
                     (case renderSpan_loop s iv x_min x_max ((y * m_w s) + x_min) buf of
                        None \<Rightarrow> None
                      | Some buf' \<Rightarrow> Some (s\<lparr>pBuf := Some buf'\<rparr>)))))))))"

text \<open>A sequence of \<open>renderSpan\<close> calls; it ends where the program stops.\<close>

fun renderSpans :: "raster \<Rightarrow> (VERTEX \<times> VERTEX) list \<Rightarrow> raster option" where
  "renderSpans s [] = Some s"
| "renderSpans s ((v1, v2) # spans) =
     (case renderSpan s v1 v2 of
        None \<Rightarrow> None
      | Some s' \<Rightarrow> renderSpans s' spans)"

section \<open>Renderable vertices and packed colours as the specification describes them\<close>

text \<open>
  A renderable vertex carries a scalar in \<open>[-1, 1]\<close> in the scalar modes and a unit
  vector with a non-negative third component in vector mode.  A packed ARGB colour
  has its alpha in the top byte, then red, green and blue.
\<close>

definition vertex_valid :: "raster \<Rightarrow> VERTEX \<Rightarrow> bool" where
  "vertex_valid s v =
     (if m_inter s = INTER_SCALAR then - 1 \<le> vtx_v v \<and> vtx_v v \<le> 1
      else m_inter s = INTER_VECTOR \<and>
           vtx_vx v * vtx_vx v + vtx_vy v * vtx_vy v + vtx_vz v * vtx_vz v = 1 \<and>
           0 \<le> vtx_vz v)"

definition same_position_attribute :: "raster \<Rightarrow> VERTEX \<Rightarrow> VERTEX \<Rightarrow> bool" where
  "same_position_attribute s r v =
     (vtx_x r = vtx_x v \<and> vtx_y r = vtx_y v \<and>
      (if m_inter s = INTER_SCALAR then vtx_v r = vtx_v v
       else vtx_vx r = vtx_vx v \<and> vtx_vy r = vtx_vy v \<and> vtx_vz r = vtx_vz v))"

definition argb_alpha :: "32 word \<Rightarrow> 32 word" where
  "argb_alpha c = drop_bit 24 c"

definition argb_red :: "32 word \<Rightarrow> 32 word" where
  "argb_red c = (drop_bit 16 c) AND 0xff"

definition argb_green :: "32 word \<Rightarrow> 32 word" where
  "argb_green c = (drop_bit 8 c) AND 0xff"

definition argb_blue :: "32 word \<Rightarrow> 32 word" where
  "argb_blue c = c AND 0xff"

section \<open>A sample mesh file\<close>

text \<open>
  The entities of the unit square split into two triangles, with the line count after
  each: the mesh it loads to, the usage map dimensioned for its four points, and the
  loader variables once the four points have been read.
\<close>

definition quad_input :: "(SNENTITY \<times> int) list" where
  "quad_input =
    [(SNENTITY_BEGIN_META, 1), (SNENTITY_META_TOKEN ''lilac-mesh'', 1), (SNENTITY_END_META, 1),
     (SNENTITY_BEGIN_META, 2), (SNENTITY_META_TOKEN ''dim'', 2), (SNENTITY_META_TOKEN ''4'', 2),
     (SNENTITY_META_TOKEN ''2'', 2), (SNENTITY_END_META, 2),
     (SNENTITY_NUMERIC ''0'', 3), (SNENTITY_NUMERIC ''0'', 3), (SNENTITY_NUMERIC ''0'', 3),
     (SNENTITY_NUMERIC ''0'', 3), (SNENTITY_OPERATION ''p'', 3),
     (SNENTITY_NUMERIC ''0'', 4), (SNENTITY_NUMERIC ''0'', 4), (SNENTITY_NUMERIC ''16384'', 4),
     (SNENTITY_NUMERIC ''0'', 4), (SNENTITY_OPERATION ''p'', 4),
     (SNENTITY_NUMERIC ''0'', 5), (SNENTITY_NUMERIC ''0'', 5), (SNENTITY_NUMERIC ''16384'', 5),
     (SNENTITY_NUMERIC ''16384'', 5), (SNENTITY_OPERATION ''p'', 5),
     (SNENTITY_NUMERIC ''0'', 6), (SNENTITY_NUMERIC ''0'', 6), (SNENTITY_NUMERIC ''0'', 6),
     (SNENTITY_NUMERIC ''16384'', 6), (SNENTITY_OPERATION ''p'', 6),
     (SNENTITY_NUMERIC ''0'', 7), (SNENTITY_NUMERIC ''1'', 7), (SNENTITY_NUMERIC ''2'', 7),
     (SNENTITY_OPERATION ''t'', 7),
     (SNENTITY_NUMERIC ''0'', 8), (SNENTITY_NUMERIC ''2'', 8), (SNENTITY_NUMERIC ''3'', 8),
     (SNENTITY_OPERATION ''t'', 8),
     (SNENTITY_EOF, 9)]"

definition quad_mesh :: LILAC_MESH where
  "quad_mesh =
     \<lparr>pPoints = [\<lparr>normd = 0, norma = 0, pt_x = 0, pt_y = 0\<rparr>,
                 \<lparr>normd = 0, norma = 0, pt_x = 16384, pt_y = 0\<rparr>,
                 \<lparr>normd = 0, norma = 0, pt_x = 16384, pt_y = 16384\<rparr>,
                 \<lparr>normd = 0, norma = 0, pt_x = 0, pt_y = 16384\<rparr>],
      pTris = [0, 1, 2, 0, 2, 3], point_count = 4, tri_count = 2\<rparr>"

definition quad_um :: USAGE_MAP where
  "quad_um = \<lparr>pPointUse = [0], pEdgeUse = [0], um_point_count = 4\<rparr>"

definition quad_points_parser :: SNPARSER where
  "quad_points_parser = \<lparr>sn_rest = take 19 (drop 9 quad_input), sn_count = 3\<rparr>"

definition quad_points_state :: loader where
  "quad_points_state =
     (case interpreter_loop (SNENTITY_NUMERIC ''0'') quad_points_parser
             (loader_init 4 2 quad_um) of
        Some (ent, pSn, s) \<Rightarrow> s
      | None \<Rightarrow> loader_init 4 2 quad_um)"

section \<open>Sample spans and vertices\<close>

text \<open>
  A scalar-mode buffer of one scanline with its second pixel masked and a span across
  it; three unit vectors of a vector-mode buffer, towards \<open>+X\<close>, towards \<open>-X\<close>
  and towards the viewer; and two scalar vertices.
\<close>

definition span_state :: raster where
  "span_state = \<lparr>m_inter = INTER_SCALAR, m_w = 4, m_h = 1,
                  pBuf = Some [0, 0xff000000, 0, 0]\<rparr>"

definition span_left :: VERTEX where
  "span_left = \<lparr>vtx_x = 1 / 2, vtx_y = 1 / 2, vtx_v = 0, vtx_vx = 0, vtx_vy = 0, vtx_vz = 0\<rparr>"

definition span_right :: VERTEX where
  "span_right = \<lparr>vtx_x = 7 / 2, vtx_y = 1 / 2, vtx_v = 0, vtx_vx = 0, vtx_vy = 0, vtx_vz = 0\<rparr>"

definition vector_state :: raster where
  "vector_state = \<lparr>m_inter = INTER_VECTOR, m_w = 4, m_h = 1, pBuf = Some [0, 0, 0, 0]\<rparr>"

definition vertex_east :: VERTEX where
  "vertex_east = \<lparr>vtx_x = 1 / 2, vtx_y = 1 / 2, vtx_v = 0, vtx_vx = 1, vtx_vy = 0, vtx_vz = 0\<rparr>"

definition vertex_west :: VERTEX where
  "vertex_west = \<lparr>vtx_x = 5 / 2, vtx_y = 3 / 2, vtx_v = 0, vtx_vx = - 1, vtx_vy = 0, vtx_vz = 0\<rparr>"

definition vertex_up :: VERTEX where
  "vertex_up = \<lparr>vtx_x = 7 / 2, vtx_y = 1 / 2, vtx_v = 0, vtx_vx = 0, vtx_vy = 0, vtx_vz = 1\<rparr>"

definition scalar_state :: raster where
  "scalar_state = \<lparr>m_inter = INTER_SCALAR, m_w = 4, m_h = 1, pBuf = Some [0, 0, 0, 0]\<rparr>"

definition vertex_low :: VERTEX where
  "vertex_low = \<lparr>vtx_x = 1 / 2, vtx_y = 1 / 2, vtx_v = - 1 / 2, vtx_vx = 0, vtx_vy = 0, vtx_vz = 0\<rparr>"

definition vertex_high :: VERTEX where
  "vertex_high = \<lparr>vtx_x = 7 / 2, vtx_y = 1 / 2, vtx_v = 1, vtx_vx = 0, vtx_vy = 0, vtx_vz = 0\<rparr>"

section \<open>Verification\<close>

subsection \<open>parseNumber\<close>

lemma decimal_from_ge: "acc \<le> decimal_from acc s"
  unfolding decimal_from_def
proof (induction s arbitrary: acc)
  case Nil
  then show ?case by simp
next
  case (Cons a s)
  have "acc \<le> 10 * acc + digit_value a" by simp
  also have "\<dots> \<le> foldl (\<lambda>a ch. 10 * a + digit_value ch) (10 * acc + digit_value a) s"
    by (rule Cons.IH)
  finally show ?case by simp
qed

lemma digit_char_int:
  "is_ascii_digit ch \<longleftrightarrow> \<not> ((of_char ch :: int) < of_char CHR ''0'' \<or> (of_char ch :: int) > of_char CHR ''9'')"
proof -
  have "(of_char ch :: int) = int (of_char ch)" by (rule of_nat_of_char [symmetric])
  moreover have "(of_char CHR ''0'' :: int) = 48" "(of_char CHR ''9'' :: int) = 57"
    "(of_char CHR ''0'' :: nat) = 48" "(of_char CHR ''9'' :: nat) = 57" by simp_all
  ultimately show ?thesis
    unfolding is_ascii_digit_def by linarith
qed

lemma digit_value_int:
  assumes "is_ascii_digit ch"
  shows "int (digit_value ch) = of_char ch - of_char CHR ''0''"
proof -
  have a: "(of_char ch :: int) = int (of_char ch)" by (rule of_nat_of_char [symmetric])
  have b: "(of_char CHR ''0'' :: int) = 48" "(of_char CHR ''0'' :: nat) = 48" by simp_all
  have "(48::nat) \<le> of_char ch" using assms unfolding is_ascii_digit_def b by simp
  then show ?thesis
    unfolding digit_value_def a b by linarith
qed

lemma parseNumber_loop_spec:
  "0 \<le> acc \<Longrightarrow> acc \<le> 16384 \<Longrightarrow>
   parseNumber_loop acc s =
     (if list_all is_ascii_digit s \<and> decimal_from (nat acc) s \<le> 16384
      then int (decimal_from (nat acc) s) else - 1)"
proof (induction s arbitrary: acc)
  case Nil
  then show ?case by (simp add: decimal_from_def)
next
  case (Cons ch s)
  show ?case
  proof (cases "is_ascii_digit ch")
    case False
    then show ?thesis
      using digit_char_int [of ch] by (simp add: Let_def)
  next
    case True
    define r where "r = acc * 10 + (of_char ch - of_char CHR ''0'')"
    have dv: "int (digit_value ch) = of_char ch - of_char CHR ''0''"
      using True by (rule digit_value_int)
    have rnat: "nat r = 10 * nat acc + digit_value ch"
      using Cons.prems dv unfolding r_def by linarith
    have r0: "0 \<le> r" using Cons.prems dv unfolding r_def by linarith
    have step: "decimal_from (nat acc) (ch # s) = decimal_from (nat r) s"
      by (simp add: decimal_from_def rnat)
    show ?thesis
    proof (cases "r > 16384")
      case big: True
      have "nat r \<le> decimal_from (nat r) s" by (rule decimal_from_ge)
      with big have "\<not> decimal_from (nat r) s \<le> 16384" by linarith
      with big True show ?thesis
        using digit_char_int [of ch] step
        by (simp add: Let_def LILAC_MESH_MAX_C_def r_def)
    next
      case small: False
      then have "r \<le> 16384" by simp
      from Cons.IH [OF r0 this] True small show ?thesis
        using digit_char_int [of ch] step
        by (simp add: Let_def LILAC_MESH_MAX_C_def r_def)
    qed
  qed
qed

lemma parseNumber_eq:
  "parseNumber s = (if spec_parse_ok s then int (decimal_value s) else - 1)"
proof (cases "s = []")
  case True
  then show ?thesis by (simp add: parseNumber_def spec_parse_ok_def)
next
  case False
  then show ?thesis
    using parseNumber_loop_spec [of 0 s]
    by (simp add: parseNumber_def spec_parse_ok_def decimal_value_def)
qed

lemma parseNumber_range:
  "parseNumber s = - 1 \<or> (0 \<le> parseNumber s \<and> parseNumber s \<le> LILAC_MESH_MAX_C)"
  unfolding parseNumber_eq by (simp add: spec_parse_ok_def LILAC_MESH_MAX_C_def)

text \<open>
  Claim C5.  \<open>parseNumber\<close> returns the decimal value of its argument exactly when the
  argument is non-empty, consists of ASCII digits only and denotes a value of at most
  \<open>LILAC_MESH_MAX_C\<close>; in every other case it returns \<open>-1\<close>.  A successful result
  therefore lies in \<open>[0, 16384]\<close>.
\<close>

theorem parseNumber_decimal:
  "parseNumber s = (if spec_parse_ok s then int (decimal_value s) else - 1)
   \<and> (parseNumber s \<noteq> - 1 \<longrightarrow> 0 \<le> parseNumber s \<and> parseNumber s \<le> LILAC_MESH_MAX_C)"
proof
  show "parseNumber s = (if spec_parse_ok s then int (decimal_value s) else - 1)"
    by (rule parseNumber_eq)
  show "parseNumber s \<noteq> - 1 \<longrightarrow> 0 \<le> parseNumber s \<and> parseNumber s \<le> LILAC_MESH_MAX_C"
    using parseNumber_range [of s] by blast
qed

theorem parseNumber_decimal_witness:
  "parseNumber ''0042'' = 42 \<and> parseNumber ''16385'' = - 1 \<and> parseNumber ''1x'' = - 1 \<and> parseNumber [] = -1 \<and> spec_parse_ok ''0042''"
  using parseNumber_decimal [of "''0042''"] parseNumber_decimal [of "''16385''"]
   parseNumber_decimal [of "''1x''"]  parseNumber_decimal [of "[]"]
  by (simp add: spec_parse_ok_def decimal_value_def decimal_from_def digit_value_def is_ascii_digit_def)

subsection \<open>The usage map\<close>

lemma not_word32_nonzero: "NOT (w :: 32 word) \<noteq> 0 \<longleftrightarrow> (\<exists>k<32. \<not> bit w k)"
  by (auto simp add: bit_eq_iff bit_not_iff)

lemma not_or_mask_nonzero:
  assumes "m \<le> 32"
  shows "NOT ((w :: 32 word) OR (push_bit m 1 - 1)) \<noteq> 0 \<longleftrightarrow> (\<exists>k<32. m \<le> k \<and> \<not> bit w k)"
proof -
  have eq: "(push_bit m 1 - 1 :: 32 word) = mask m"
    by (simp add: mask_eq_exp_minus_1 push_bit_eq_mult)
  show ?thesis
    unfolding eq
    by (auto simp add: bit_eq_iff bit_not_iff bit_or_iff bit_and_iff bit_mask_iff not_less)
qed

lemma orphan_loop_result: "usage_map_orphan_loop pu i fc = 0 \<or> usage_map_orphan_loop pu i fc = 1"
proof (induction pu i fc rule: usage_map_orphan_loop.induct)
  case (1 pu i fc)
  show ?case
  proof (cases "i < fc \<and> NOT (pu ! nat i) = 0")
    case True
    then have "usage_map_orphan_loop pu i fc = usage_map_orphan_loop pu (i + 1) fc"
      by (subst usage_map_orphan_loop.simps) simp
    with 1 True show ?thesis by simp
  next
    case False
    then show ?thesis by (auto simp add: usage_map_orphan_loop.simps [of pu i fc])
  qed
qed

lemma orphan_loop_iff:
  "usage_map_orphan_loop pu i fc \<noteq> 0 \<longleftrightarrow> (\<exists>j. i \<le> j \<and> j < fc \<and> NOT (pu ! nat j) \<noteq> 0)"
proof (induction pu i fc rule: usage_map_orphan_loop.induct)
  case (1 pu i fc)
  show ?case
  proof (cases "i < fc")
    case False
    then show ?thesis by (subst usage_map_orphan_loop.simps) auto
  next
    case True
    show ?thesis
    proof (cases "NOT (pu ! nat i) \<noteq> 0")
      case t: True
      with True show ?thesis
        by (subst usage_map_orphan_loop.simps) auto
    next
      case f: False
      have "usage_map_orphan_loop pu i fc = usage_map_orphan_loop pu (i + 1) fc"
        using True f by (subst usage_map_orphan_loop.simps) simp
      also have "\<dots> \<noteq> 0 \<longleftrightarrow> (\<exists>j. i + 1 \<le> j \<and> j < fc \<and> NOT (pu ! nat j) \<noteq> 0)"
        using 1 True f by simp
      also have "\<dots> \<longleftrightarrow> (\<exists>j. i \<le> j \<and> j < fc \<and> NOT (pu ! nat j) \<noteq> 0)"
      proof
        assume "\<exists>j. i + 1 \<le> j \<and> j < fc \<and> NOT (pu ! nat j) \<noteq> 0"
        then obtain j where "i + 1 \<le> j" "j < fc" "NOT (pu ! nat j) \<noteq> 0" by blast
        then have "i \<le> j \<and> j < fc \<and> NOT (pu ! nat j) \<noteq> 0" by simp
        then show "\<exists>j. i \<le> j \<and> j < fc \<and> NOT (pu ! nat j) \<noteq> 0" ..
      next
        assume "\<exists>j. i \<le> j \<and> j < fc \<and> NOT (pu ! nat j) \<noteq> 0"
        then obtain j where j: "i \<le> j" "j < fc" "NOT (pu ! nat j) \<noteq> 0" by blast
        with f have "j \<noteq> i" by auto
        with j have "i + 1 \<le> j \<and> j < fc \<and> NOT (pu ! nat j) \<noteq> 0" by simp
        then show "\<exists>j. i + 1 \<le> j \<and> j < fc \<and> NOT (pu ! nat j) \<noteq> 0" ..
      qed
      finally show ?thesis .
    qed
  qed
qed

lemma bit_or_single:
  assumes "s < 32"
  shows "bit ((w :: 32 word) OR push_bit s 1) k \<longleftrightarrow> bit w k \<or> k = s"
  using assms by (auto simp add: bit_or_iff bit_exp_iff)

lemma bit_and_single:
  assumes "s < 32"
  shows "(w :: 32 word) AND push_bit s 1 \<noteq> 0 \<longleftrightarrow> bit w s"
  using assms by (simp add: and_exp_eq_0_iff_not_bit)

lemma point_bit_update:
  assumes "0 \<le> i" "0 \<le> j" "nat (i div 32) < length pu"
  shows "point_bit (pu[nat (i div 32) := (pu ! nat (i div 32)) OR push_bit (nat (31 - i mod 32)) 1]) j
         \<longleftrightarrow> (j = i \<or> point_bit pu j)"
proof (cases "j div 32 = i div 32")
  case True
  have s: "nat (31 - i mod 32) < 32" by simp
  have "nat (31 - j mod 32) = nat (31 - i mod 32) \<longleftrightarrow> j mod 32 = i mod 32"
    using pos_mod_bound [of 32 i] pos_mod_bound [of 32 j] by linarith
  also have "\<dots> \<longleftrightarrow> j = i"
  proof
    assume "j mod 32 = i mod 32"
    then have "32 * (j div 32) + j mod 32 = 32 * (i div 32) + i mod 32" using True by simp
    then show "j = i" by simp
  qed simp
  finally have eq: "nat (31 - j mod 32) = nat (31 - i mod 32) \<longleftrightarrow> j = i" .
  show ?thesis
    unfolding point_bit_def True
    using assms(3) eq bit_or_single [OF s, of "pu ! nat (i div 32)" "nat (31 - j mod 32)"]
    by (simp add: disj_commute)
next
  case False
  then have "nat (j div 32) \<noteq> nat (i div 32)"
    using assms by (simp add: nat_eq_iff pos_imp_zdiv_nonneg_iff)
  moreover from False have "j \<noteq> i" by auto
  ultimately show ?thesis
    unfolding point_bit_def by simp
qed

lemma usage_map_orphan_iff:
  assumes "0 \<le> um_point_count pM"
  shows "usage_map_orphan pM \<noteq> 0 \<longleftrightarrow>
         (\<exists>i. 0 \<le> i \<and> i < um_point_count pM \<and> \<not> point_marked pM i)"
proof -
  define n where "n = um_point_count pM"
  define fc where "fc = n div 32"
  define e where "e = n mod 32"
  define pu where "pu = pPointUse pM"
  have e: "0 \<le> e" "e < 32" and n: "n = 32 * fc + e" and fc: "0 \<le> fc"
    using assms unfolding e_def fc_def n_def by simp_all
  let ?full = "\<exists>j. 0 \<le> j \<and> j < fc \<and> (\<exists>k<32. \<not> bit (pu ! nat j) k)"
  let ?tail = "e > 0 \<and> (\<exists>k<32. nat (32 - e) \<le> k \<and> \<not> bit (pu ! nat fc) k)"
  have lhs: "usage_map_orphan pM \<noteq> 0 \<longleftrightarrow> n > 0 \<and> (?full \<or> ?tail)"
  proof (cases "n > 0")
    case False
    then show ?thesis by (simp add: usage_map_orphan_def n_def)
  next
    case True
    have le: "nat (32 - e) \<le> 32" using e by simp
    have loop: "usage_map_orphan_loop pu 0 fc \<noteq> 0 \<longleftrightarrow> ?full"
      unfolding orphan_loop_iff not_word32_nonzero ..
    have tl: "e > 0 \<Longrightarrow> NOT ((pu ! nat fc) OR (push_bit (nat (32 - e)) 1 - 1)) \<noteq> 0 \<longleftrightarrow> ?tail"
      using not_or_mask_nonzero [OF le, of "pu ! nat fc"] by simp
    have unf: "usage_map_orphan pM =
      (if usage_map_orphan_loop pu 0 fc = 0 \<and> e > 0 then
         (if NOT ((pu ! nat fc) OR (push_bit (nat (32 - e)) 1 - 1)) \<noteq> 0 then 1
          else usage_map_orphan_loop pu 0 fc)
       else usage_map_orphan_loop pu 0 fc)"
      using True unfolding usage_map_orphan_def Let_def n_def fc_def e_def pu_def
      by (cases "0 < um_point_count pM mod 32") (simp_all only: if_True if_False simp_thms)
    show ?thesis
    proof (cases "usage_map_orphan_loop pu 0 fc = 0")
      case z: True
      then have nf: "\<not> ?full" using loop by simp
      show ?thesis
      proof (cases "e > 0")
        case ep: True
        have "usage_map_orphan pM \<noteq> 0 \<longleftrightarrow> ?tail"
          unfolding unf using z ep tl [OF ep] by simp
        with nf True show ?thesis by blast
      next
        case en: False
        then have "usage_map_orphan pM = 0" unfolding unf using z by simp
        with nf en True show ?thesis by blast
      qed
    next
      case nz: False
      then have "usage_map_orphan pM \<noteq> 0" unfolding unf by simp
      moreover have ?full using nz loop by simp
      ultimately show ?thesis using True by blast
    qed
  qed
  have rhs: "(\<exists>i. 0 \<le> i \<and> i < n \<and> \<not> point_bit pu i) \<longleftrightarrow> (?full \<or> ?tail)"
  proof
    assume "\<exists>i. 0 \<le> i \<and> i < n \<and> \<not> point_bit pu i"
    then obtain i where i: "0 \<le> i" "i < n" "\<not> point_bit pu i" by blast
    define k where "k = nat (31 - i mod 32)"
    have k: "k < 32" "\<not> bit (pu ! nat (i div 32)) k"
      using i(3) unfolding k_def point_bit_def by simp_all
    have d: "0 \<le> i div 32" "i div 32 \<le> fc" using i n e by simp_all
    show "?full \<or> ?tail"
    proof (cases "i div 32 < fc")
      case True
      with d k have "0 \<le> i div 32 \<and> i div 32 < fc \<and> (\<exists>k<32. \<not> bit (pu ! nat (i div 32)) k)"
        by blast
      then show ?thesis by blast
    next
      case False
      with d have eq: "i div 32 = fc" by simp
      have "i = 32 * (i div 32) + i mod 32" by simp
      then have "i = 32 * fc + i mod 32" unfolding eq .
      with i(2) n have "i mod 32 < e" by linarith
      moreover have "0 \<le> i mod 32" by simp
      ultimately have "e > 0" "nat (32 - e) \<le> k" unfolding k_def by linarith+
      with k eq show ?thesis by blast
    qed
  next
    assume "?full \<or> ?tail"
    then show "\<exists>i. 0 \<le> i \<and> i < n \<and> \<not> point_bit pu i"
    proof
      assume ?full
      then obtain j k where jk: "0 \<le> j" "j < fc" "k < 32" "\<not> bit (pu ! nat j) k" by blast
      define i where "i = 32 * j + (31 - int k)"
      have "i div 32 = j" "i mod 32 = 31 - int k"
        using jk(3) unfolding i_def by simp_all
      then have "\<not> point_bit pu i" using jk unfolding point_bit_def by simp
      moreover have "0 \<le> i" "i < n" using jk n e unfolding i_def by linarith+
      ultimately show ?thesis by blast
    next
      assume ?tail
      then obtain k where k: "e > 0" "k < 32" "nat (32 - e) \<le> k" "\<not> bit (pu ! nat fc) k"
        by blast
      define i where "i = 32 * fc + (31 - int k)"
      have "i div 32 = fc" "i mod 32 = 31 - int k"
        using k(2) unfolding i_def by simp_all
      then have "\<not> point_bit pu i" using k unfolding point_bit_def by simp
      moreover have "0 \<le> i" "i < n" using k n e fc unfolding i_def by linarith+
      ultimately show ?thesis by blast
    qed
  qed
  have "n > 0 \<and> (?full \<or> ?tail) \<longleftrightarrow> (?full \<or> ?tail)"
  proof -
    have "n > 0" if "?full"
    proof -
      from that obtain j where "0 \<le> j" "j < fc" by blast
      then show ?thesis using n e by linarith
    qed
    moreover have "n > 0" if "?tail"
    proof -
      from that have "e > 0" by blast
      then show ?thesis using n fc by linarith
    qed
    ultimately show ?thesis by blast
  qed
  with lhs rhs show ?thesis
    unfolding point_marked_def n_def pu_def by simp
qed

lemma usage_map_orphan_01: "usage_map_orphan pM = 0 \<or> usage_map_orphan pM = 1"
proof -
  define r where "r = usage_map_orphan_loop (pPointUse pM) 0 (um_point_count pM div 32)"
  have "r = 0 \<or> r = 1" unfolding r_def by (rule orphan_loop_result)
  then show ?thesis
    unfolding usage_map_orphan_def Let_def r_def [symmetric]
    by (simp split: if_splits)
qed

lemma blocks_eq:
  "(if (n::int) mod 32 \<noteq> 0 then n div 32 + 1 else n div 32) = (n + 31) div 32"
proof -
  define q r where "q = n div 32" and "r = n mod 32"
  have n: "n = 32 * q + r" and r: "0 \<le> r" "r < 32" unfolding q_def r_def by simp_all
  show ?thesis
  proof (cases "r = 0")
    case True
    have "(n + 31) div 32 = q"
      by (rule int_div_pos_eq [where r = 31]) (use n True in simp_all)
    with True show ?thesis unfolding q_def r_def by simp
  next
    case False
    have "(n + 31) div 32 = q + 1"
      by (rule int_div_pos_eq [where r = "r - 1"]) (use n r False in simp_all)
    with False show ?thesis unfolding q_def r_def by simp
  qed
qed

lemma usage_map_dim_Some:
  assumes "0 \<le> n" "n \<le> LILAC_MESH_MAX_POINTS"
  shows "\<exists>um. usage_map_dim um0 n = Some um \<and> usage_map_wf um \<and> um_point_count um = n \<and>
           pPointUse um = replicate (nat ((n + 31) div 32)) 0 \<and>
           pEdgeUse um = replicate (nat ((n * n + 31) div 32)) 0"
proof (cases "n = 0")
  case True
  then show ?thesis
    by (simp add: usage_map_dim_def usage_map_reset_def usage_map_wf_def LILAC_MESH_MAX_POINTS_def)
next
  case False
  with assms have pos: "0 < n" by simp
  have nn: "0 \<le> n * n" by simp
  have a: "(if n mod 32 \<noteq> 0 then n div 32 + 1 else n div 32) = (n + 31) div 32"
    by (rule blocks_eq)
  have b: "(if n * n mod 32 \<noteq> 0 then n * n div 32 + 1 else n * n div 32) = (n * n + 31) div 32"
    by (rule blocks_eq)
  have c: "0 \<le> (n + 31) div 32" "0 \<le> (n * n + 31) div 32"
    using assms(1) nn by (simp_all add: pos_imp_zdiv_nonneg_iff)
  have "usage_map_dim um0 n = Some (um0\<lparr>pPointUse := replicate (nat ((n + 31) div 32)) 0,
      pEdgeUse := replicate (nat ((n * n + 31) div 32)) 0, um_point_count := n\<rparr>)"
    using assms pos unfolding usage_map_dim_def Let_def a b usage_map_reset_def
    by simp
  then show ?thesis
    using assms c by (simp add: usage_map_wf_def)
qed

lemma point_block_in_range:
  assumes "0 \<le> i" "i < n"
  shows "nat (i div 32) < nat ((n + 31) div 32)"
proof -
  have "(n + 31) div 32 = (n - 1 + 32) div 32" by simp
  also have "\<dots> = (n - 1) div 32 + 1" by (rule div_add_self2) simp
  finally have "(n + 31) div 32 = (n - 1) div 32 + 1" .
  moreover have "i div 32 \<le> (n - 1) div 32" using assms by (intro zdiv_mono1) simp_all
  ultimately have "i div 32 < (n + 31) div 32" by simp
  moreover have "0 \<le> i div 32" using assms by simp
  ultimately show ?thesis by simp
qed

lemma point_bit_replicate_zero:
  assumes "0 \<le> i" "i < n"
  shows "\<not> point_bit (replicate (nat ((n + 31) div 32)) 0) i"
  using point_block_in_range [OF assms] unfolding point_bit_def by simp

lemma usage_map_point_Some:
  assumes "usage_map_wf um" "0 \<le> i" "i < um_point_count um"
  shows "\<exists>um'. usage_map_point um i = Some um' \<and> usage_map_wf um' \<and>
           um_point_count um' = um_point_count um \<and> pEdgeUse um' = pEdgeUse um \<and>
           (\<forall>j\<ge>0. point_marked um' j \<longleftrightarrow> (j = i \<or> point_marked um j))"
proof -
  define um' where "um' = um\<lparr>pPointUse :=
      (pPointUse um)[nat (i div 32) := (pPointUse um ! nat (i div 32)) OR push_bit (nat (31 - i mod 32)) 1]\<rparr>"
  have r: "usage_map_point um i = Some um'"
    using assms(2,3) unfolding usage_map_point_def Let_def um'_def by simp
  have len: "int (length (pPointUse um)) = (um_point_count um + 31) div 32"
    using assms(1) unfolding usage_map_wf_def by simp
  have inr: "nat (i div 32) < length (pPointUse um)"
    using point_block_in_range [OF assms(2,3)] len by linarith
  have bits: "\<forall>j\<ge>0. point_marked um' j \<longleftrightarrow> (j = i \<or> point_marked um j)"
    unfolding point_marked_def um'_def
    using point_bit_update [OF assms(2) _ inr] by simp
  have "usage_map_wf um'" using assms(1) unfolding usage_map_wf_def um'_def by simp
  moreover have "um_point_count um' = um_point_count um" "pEdgeUse um' = pEdgeUse um"
    unfolding um'_def by simp_all
  ultimately show ?thesis using r bits by blast
qed

lemma mark_points_Some:
  assumes "usage_map_wf um" "\<forall>i\<in>set is. 0 \<le> i \<and> i < um_point_count um"
  shows "\<exists>um'. mark_points um is = Some um' \<and> usage_map_wf um' \<and>
           um_point_count um' = um_point_count um \<and> pEdgeUse um' = pEdgeUse um \<and>
           (\<forall>j\<ge>0. point_marked um' j \<longleftrightarrow> (j \<in> set is \<or> point_marked um j))"
  using assms
proof (induction "is" arbitrary: um)
  case Nil
  then show ?case by simp
next
  case (Cons i "is")
  from Cons.prems have i: "0 \<le> i" "i < um_point_count um" by simp_all
  from usage_map_point_Some [OF Cons.prems(1) i] obtain um1 where
    um1: "usage_map_point um i = Some um1" "usage_map_wf um1"
      "um_point_count um1 = um_point_count um" "pEdgeUse um1 = pEdgeUse um"
      "\<forall>j\<ge>0. point_marked um1 j \<longleftrightarrow> (j = i \<or> point_marked um j)"
    by blast
  have "\<forall>i\<in>set is. 0 \<le> i \<and> i < um_point_count um1"
    using Cons.prems(2) um1(3) by simp
  from Cons.IH [OF um1(2) this] obtain um' where
    um': "mark_points um1 is = Some um'" "usage_map_wf um'"
      "um_point_count um' = um_point_count um1" "pEdgeUse um' = pEdgeUse um1"
      "\<forall>j\<ge>0. point_marked um' j \<longleftrightarrow> (j \<in> set is \<or> point_marked um1 j)"
    by blast
  have "mark_points um (i # is) = Some um'" using um1(1) um'(1) by simp
  moreover have "\<forall>j\<ge>0. point_marked um' j \<longleftrightarrow> (j \<in> set (i # is) \<or> point_marked um j)"
    using um'(5) um1(5) by auto
  ultimately show ?case using um' um1 by auto
qed

text \<open>
  Claim C6.  For a usage map dimensioned with \<open>n\<close> in \<open>[0, LILAC_MESH_MAX_POINTS]\<close>
  and any sequence of \<open>usage_map_point\<close> calls with indices in \<open>[0, n)\<close>, no call
  aborts and \<open>usage_map_orphan\<close> returns non-zero exactly when some index in
  \<open>[0, n)\<close> has not been marked.  The result depends only on the bits of the indices
  below \<open>n\<close>: replacing the point bitmap by any other that agrees on those bits
  leaves it unchanged.  For \<open>n = 0\<close> the result is zero.
\<close>

theorem usage_map_orphan_correct:
  assumes "0 \<le> n" "n \<le> LILAC_MESH_MAX_POINTS" "\<forall>i\<in>set is. 0 \<le> i \<and> i < n"
  shows "\<exists>um um'. usage_map_dim um0 n = Some um \<and> mark_points um is = Some um' \<and>
           (usage_map_orphan um' \<noteq> 0 \<longleftrightarrow> (\<exists>i. 0 \<le> i \<and> i < n \<and> i \<notin> set is)) \<and>
           (\<forall>pu'. (\<forall>i. 0 \<le> i \<and> i < n \<longrightarrow> point_bit pu' i = point_bit (pPointUse um') i)
                  \<longrightarrow> usage_map_orphan (um'\<lparr>pPointUse := pu'\<rparr>) = usage_map_orphan um') \<and>
           (n = 0 \<longrightarrow> usage_map_orphan um' = 0)"
proof -
  from usage_map_dim_Some [OF assms(1,2)] obtain um where
    um: "usage_map_dim um0 n = Some um" "usage_map_wf um" "um_point_count um = n"
      "pPointUse um = replicate (nat ((n + 31) div 32)) 0"
    by blast
  have "\<forall>i\<in>set is. 0 \<le> i \<and> i < um_point_count um" using assms(3) um(3) by simp
  from mark_points_Some [OF um(2) this] obtain um' where
    um': "mark_points um is = Some um'" "um_point_count um' = um_point_count um"
      "\<forall>j\<ge>0. point_marked um' j \<longleftrightarrow> (j \<in> set is \<or> point_marked um j)"
    by blast
  have n': "um_point_count um' = n" using um'(2) um(3) by simp
  have clear: "\<not> point_marked um j" if "0 \<le> j" "j < n" for j
    unfolding point_marked_def um(4) using that by (rule point_bit_replicate_zero)
  have marked: "point_marked um' j \<longleftrightarrow> j \<in> set is" if "0 \<le> j" "j < n" for j
    using um'(3) clear [OF that] that(1) by simp
  have "usage_map_orphan um' \<noteq> 0 \<longleftrightarrow> (\<exists>i. 0 \<le> i \<and> i < n \<and> \<not> point_marked um' i)"
    using usage_map_orphan_iff [of um'] assms(1) n' by simp
  also have "\<dots> \<longleftrightarrow> (\<exists>i. 0 \<le> i \<and> i < n \<and> i \<notin> set is)"
    using marked by blast
  finally have orphan: "usage_map_orphan um' \<noteq> 0 \<longleftrightarrow> (\<exists>i. 0 \<le> i \<and> i < n \<and> i \<notin> set is)" .
  have tail: "usage_map_orphan (um'\<lparr>pPointUse := pu'\<rparr>) = usage_map_orphan um'"
    if h: "\<forall>i. 0 \<le> i \<and> i < n \<longrightarrow> point_bit pu' i = point_bit (pPointUse um') i" for pu'
  proof -
    have a: "usage_map_orphan (um'\<lparr>pPointUse := pu'\<rparr>) \<noteq> 0 \<longleftrightarrow>
        (\<exists>i. 0 \<le> i \<and> i < n \<and> \<not> point_bit pu' i)"
      using usage_map_orphan_iff [of "um'\<lparr>pPointUse := pu'\<rparr>"] assms(1) n'
      unfolding point_marked_def by simp
    have b: "usage_map_orphan um' \<noteq> 0 \<longleftrightarrow>
        (\<exists>i. 0 \<le> i \<and> i < n \<and> \<not> point_bit (pPointUse um') i)"
      using usage_map_orphan_iff [of um'] assms(1) n'
      unfolding point_marked_def by simp
    have "(\<exists>i. 0 \<le> i \<and> i < n \<and> \<not> point_bit pu' i) \<longleftrightarrow>
        (\<exists>i. 0 \<le> i \<and> i < n \<and> \<not> point_bit (pPointUse um') i)"
      using h by blast
    with a b have "usage_map_orphan (um'\<lparr>pPointUse := pu'\<rparr>) \<noteq> 0 \<longleftrightarrow> usage_map_orphan um' \<noteq> 0"
      by simp
    then show ?thesis
      using usage_map_orphan_01 [of um'] usage_map_orphan_01 [of "um'\<lparr>pPointUse := pu'\<rparr>"]
      by linarith
  qed
  have zero: "n = 0 \<longrightarrow> usage_map_orphan um' = 0"
    using orphan by auto
  show ?thesis using um(1) um'(1) orphan tail zero by blast
qed

theorem usage_map_orphan_correct_witness:
  "(\<exists>um um'. usage_map_dim usage_map_init 5 = Some um \<and> mark_points um [0, 3, 1, 4] = Some um'
      \<and> usage_map_orphan um' \<noteq> 0)
   \<and> (\<exists>um um'. usage_map_dim usage_map_init 5 = Some um \<and> mark_points um [0, 3, 2, 1, 4, 3] = Some um'
      \<and> usage_map_orphan um' = 0)"
proof -
  have n: "(0::int) \<le> 5" "(5::int) \<le> LILAC_MESH_MAX_POINTS"
    by (simp_all add: LILAC_MESH_MAX_POINTS_def)
  have a: "\<forall>i\<in>set [0, 3, 1, 4]. 0 \<le> i \<and> i < (5::int)" by simp
  have b: "\<forall>i\<in>set [0, 3, 2, 1, 4, 3]. 0 \<le> i \<and> i < (5::int)" by simp
  have oa: "\<exists>i. 0 \<le> i \<and> i < (5::int) \<and> i \<notin> set [0, 3, 1, 4]"
    by (rule exI [of _ 2]) simp
  have ob: "\<not> (\<exists>i. 0 \<le> i \<and> i < (5::int) \<and> i \<notin> set [0, 3, 2, 1, 4, 3])"
  proof
    assume "\<exists>i. 0 \<le> i \<and> i < (5::int) \<and> i \<notin> set [0, 3, 2, 1, 4, 3]"
    then obtain i :: int where "0 \<le> i" "i < 5" "i \<notin> set [0, 3, 2, 1, 4, 3]" by blast
    then show False by simp
  qed
  from usage_map_orphan_correct [OF n a, of usage_map_init] oa
  have "\<exists>um um'. usage_map_dim usage_map_init 5 = Some um \<and> mark_points um [0, 3, 1, 4] = Some um'
      \<and> usage_map_orphan um' \<noteq> 0" by blast
  moreover from usage_map_orphan_correct [OF n b, of usage_map_init] ob
  have "\<exists>um um'. usage_map_dim usage_map_init 5 = Some um \<and> mark_points um [0, 3, 2, 1, 4, 3] = Some um'
      \<and> usage_map_orphan um' = 0" by blast
  ultimately show ?thesis by blast
qed

text \<open>
  Claim C7.  The comment of \<open>usage_map_edge\<close> announces a fault when both indices
  are equal, but the function only checks the range of each index: on a map
  dimensioned for two points the call with \<open>i1 = i2 = 1\<close> marks bit 3 of the edge
  bitmap and returns 1.
\<close>

theorem usage_map_edge_self_loop_returns:
  "usage_map_dim usage_map_init 2 = Some \<lparr>pPointUse = [0], pEdgeUse = [0], um_point_count = 2\<rparr>
   \<and> usage_map_edge \<lparr>pPointUse = [0], pEdgeUse = [0], um_point_count = 2\<rparr> 1 1
       = Some (1, \<lparr>pPointUse = [0], pEdgeUse = [268435456], um_point_count = 2\<rparr>)"
  by (simp add: usage_map_dim_def usage_map_init_def usage_map_reset_def usage_map_edge_def
        LILAC_MESH_MAX_POINTS_def Let_def)

subsection \<open>The triangle and point operations\<close>

lemma orient_k_area:
  "orient_k pA pB pC = of_int (signed_area pA pB pC) / (16384 * 16384)"
  unfolding orient_k_def signed_area_def Let_def LILAC_MESH_MAX_C_def
  by (simp add: field_simps)

lemma orient_k_pos: "orient_k pA pB pC > 0 \<longleftrightarrow> signed_area pA pB pC > 0"
  unfolding orient_k_area by (simp add: zero_less_divide_iff)

lemma unat_less_length:
  fixes v :: "16 word"
  assumes "uint v < int n"
  shows "unat v < n"
proof -
  have "int (unat v) < int n" using assms by (simp only: uint_nat)
  then show ?thesis by (simp only: of_nat_less_iff)
qed

lemma op_t_checks_first_failure:
  assumes pts: "pw \<le> int (length (pPoints pM))"
    and tris: "tw > 0 \<longrightarrow> (tw - 1) * 3 + 1 < int (length (pTris pM))"
  shows "op_t_checks v1 v2 v3 pM pw tw e =
     Some (case first_failure (spec_tri_prechecks v1 v2 v3 pM pw tw) of
             Some c \<Rightarrow> (0, c) | None \<Rightarrow> (1, e))"
proof -
  have sort: "\<And>(p0::16 word) p1 F G.
      (if p0 > v1 then F else if p0 = v1 then (if p1 \<ge> v2 then F else G) else G)
       = (if \<not> (p0 < v1 \<or> (p0 = v1 \<and> p1 < v2)) then F else (G :: int \<times> int))"
    by (auto simp add: not_less)
  show ?thesis
  proof (cases "uint v1 \<ge> pw \<or> uint v2 \<ge> pw \<or> uint v3 \<ge> pw")
    case True
    show ?thesis
      unfolding op_t_checks_def Let_def spec_tri_prechecks_def
      using True by (simp split del: if_split)
  next
    case ref: False
    then have "uint v1 < int (length (pPoints pM))" "uint v2 < int (length (pPoints pM))"
      "uint v3 < int (length (pPoints pM))"
      using pts by simp_all
    then have "unat v1 < length (pPoints pM)" "unat v2 < length (pPoints pM)"
      "unat v3 < length (pPoints pM)"
      by (simp_all add: unat_less_length)
    then have inr: "\<not> (unat v1 \<ge> length (pPoints pM) \<or> unat v2 \<ge> length (pPoints pM) \<or>
        unat v3 \<ge> length (pPoints pM))"
      by simp
    show ?thesis
    proof (cases "v1 = v2 \<or> v2 = v3 \<or> v1 = v3")
      case True
      show ?thesis
        unfolding op_t_checks_def Let_def spec_tri_prechecks_def
        using ref True by (simp split del: if_split)
    next
      case dup: False
      show ?thesis
      proof (cases "v2 < v1 \<or> v3 < v1")
        case True
        show ?thesis
          unfolding op_t_checks_def Let_def spec_tri_prechecks_def
          using ref dup True by (simp split del: if_split)
      next
        case ord: False
        show ?thesis
        proof (cases "signed_area (pPoints pM ! unat v1) (pPoints pM ! unat v2)
                        (pPoints pM ! unat v3) > 0")
          case False
          show ?thesis
            unfolding op_t_checks_def Let_def spec_tri_prechecks_def
            using ref dup ord inr False by (simp split del: if_split add: orient_k_pos)
        next
          case area: True
          show ?thesis
          proof (cases "tw > 0")
            case False
            show ?thesis
              unfolding op_t_checks_def Let_def spec_tri_prechecks_def
              using ref dup ord inr area False
              by (simp split del: if_split add: orient_k_pos) auto
          next
            case pos: True
            with tris have tr: "\<not> (tw - 1) * 3 + 1 \<ge> int (length (pTris pM))" by simp
            show ?thesis
              unfolding op_t_checks_def Let_def spec_tri_prechecks_def sort
              using ref dup ord inr area pos tr
              by (simp split del: if_split add: orient_k_pos) auto
          qed
        qed
      qed
    qed
  qed
qed

lemma op_t_checks_codes:
  assumes "op_t_checks v1 v2 v3 pM pw tw e = Some (r, c)"
  shows "(r = 0 \<and> c \<noteq> LILAC_MESH_ERR_DUPEDG) \<or> (r = 1 \<and> c = e)"
  using assms unfolding op_t_checks_def Let_def
  by (auto simp add: err_codes split: if_splits option.splits prod.splits)

lemma edge_index_inj:
  assumes "0 \<le> b" "b < n" "0 \<le> d" "d < n" "a * n + b = c * n + (d::int)"
  shows "a = c \<and> b = d"
proof -
  have n: "n \<noteq> 0" using assms by auto
  have "(a * n + b) div n = a + b div n" "(c * n + d) div n = c + d div n"
    using n by (rule div_mult_self3)+
  moreover have "b div n = 0" "d div n = 0"
    using assms by simp_all
  ultimately have "(a * n + b) div n = a" "(c * n + d) div n = c"
    by simp_all
  with assms(5) have "a = c" by simp
  with assms(5) show ?thesis by simp
qed

lemma edge_index_bounds:
  assumes "0 \<le> a" "a < n" "0 \<le> b" "b < (n::int)"
  shows "0 \<le> a * n + b" "a * n + b < n * n"
proof -
  show "0 \<le> a * n + b" using assms by simp
  have "a + 1 \<le> n" using assms by simp
  then have "(a + 1) * n \<le> n * n" using assms by (intro mult_right_mono) simp_all
  then show "a * n + b < n * n" using assms by (simp add: algebra_simps)
qed

lemma usage_map_edge_Some:
  assumes wf: "usage_map_wf um"
    and i1: "0 \<le> i1" "i1 < um_point_count um"
    and i2: "0 \<le> i2" "i2 < um_point_count um"
  shows "\<exists>um'. usage_map_edge um i1 i2 = Some (if edge_marked um i1 i2 then 0 else 1, um') \<and>
           usage_map_wf um' \<and> um_point_count um' = um_point_count um \<and>
           pPointUse um' = pPointUse um \<and>
           (edge_marked um i1 i2 \<longrightarrow> um' = um) \<and>
           (\<forall>a b. 0 \<le> a \<and> a < um_point_count um \<and> 0 \<le> b \<and> b < um_point_count um \<longrightarrow>
              (edge_marked um' a b \<longleftrightarrow> (a = i1 \<and> b = i2) \<or> edge_marked um a b))"
proof -
  define n where "n = um_point_count um"
  define ix where "ix = i1 * n + i2"
  define w where "w = pEdgeUse um ! nat (ix div 32)"
  define mask where "mask = (push_bit (nat (31 - ix mod 32)) 1 :: 32 word)"
  have ix: "0 \<le> ix" "ix < n * n"
    unfolding ix_def using edge_index_bounds [of i1 n i2] i1 i2 unfolding n_def by simp_all
  have len: "int (length (pEdgeUse um)) = (n * n + 31) div 32"
    using wf unfolding usage_map_wf_def n_def by simp
  have inr: "nat (ix div 32) < length (pEdgeUse um)"
    using point_block_in_range [OF ix] len by linarith
  have s: "nat (31 - ix mod 32) < 32" by simp
  have test: "w AND mask \<noteq> 0 \<longleftrightarrow> edge_marked um i1 i2"
    unfolding mask_def w_def edge_marked_def point_bit_def ix_def n_def
    by (rule bit_and_single) simp
  have nr: "\<not> (i1 < 0 \<or> i1 \<ge> um_point_count um \<or> i2 < 0 \<or> i2 \<ge> um_point_count um)"
    using i1 i2 by simp
  have unf: "usage_map_edge um i1 i2 =
      (if w AND mask \<noteq> 0 then Some (0, um)
       else Some (1, um\<lparr>pEdgeUse := (pEdgeUse um)[nat (ix div 32) := w OR mask]\<rparr>))"
    unfolding usage_map_edge_def Let_def w_def mask_def ix_def n_def
    using nr by (simp only: if_False)
  show ?thesis
  proof (cases "edge_marked um i1 i2")
    case True
    then have "usage_map_edge um i1 i2 = Some (0, um)" unfolding unf using test by simp
    with True wf show ?thesis by auto
  next
    case False
    define um' where "um' = um\<lparr>pEdgeUse := (pEdgeUse um)[nat (ix div 32) := w OR mask]\<rparr>"
    have r: "usage_map_edge um i1 i2 = Some (1, um')"
      unfolding unf um'_def using test False by simp
    have wf': "usage_map_wf um'" using wf unfolding usage_map_wf_def um'_def by simp
    have bits: "edge_marked um' a b \<longleftrightarrow> (a = i1 \<and> b = i2) \<or> edge_marked um a b"
      if ab: "0 \<le> a" "a < n" "0 \<le> b" "b < n" for a b
    proof -
      have j: "0 \<le> a * n + b" using edge_index_bounds [OF ab] by simp
      have "edge_marked um' a b \<longleftrightarrow> (a * n + b = ix \<or> point_bit (pEdgeUse um) (a * n + b))"
        unfolding edge_marked_def um'_def w_def mask_def
        using point_bit_update [OF ix(1) j inr] by (simp add: n_def)
      moreover have "a * n + b = ix \<longleftrightarrow> a = i1 \<and> b = i2"
        unfolding ix_def using edge_index_inj [of b n i2 a i1] ab i2 unfolding n_def by auto
      ultimately show ?thesis unfolding edge_marked_def n_def by simp
    qed
    have "um_point_count um' = um_point_count um" "pPointUse um' = pPointUse um"
      unfolding um'_def by simp_all
    with r wf' bits False show ?thesis unfolding n_def by auto
  qed
qed

lemma first_failure_append:
  "first_failure (xs @ ys) =
     (case first_failure xs of Some c \<Rightarrow> Some c | None \<Rightarrow> first_failure ys)"
  by (induction xs) auto

lemma prechecks_None:
  "first_failure (spec_tri_prechecks v1 v2 v3 pM pw tw) = None \<longleftrightarrow>
     (uint v1 < pw \<and> uint v2 < pw \<and> uint v3 < pw \<and>
      v1 \<noteq> v2 \<and> v2 \<noteq> v3 \<and> v1 \<noteq> v3 \<and> v1 \<le> v2 \<and> v1 \<le> v3 \<and>
      signed_area (pPoints pM ! unat v1) (pPoints pM ! unat v2) (pPoints pM ! unat v3) > 0 \<and>
      (tw > 0 \<longrightarrow> (pTris pM ! nat ((tw - 1) * 3) < v1 \<or>
          (pTris pM ! nat ((tw - 1) * 3) = v1 \<and> pTris pM ! nat ((tw - 1) * 3 + 1) < v2))) \<and>
      tw < tri_count pM)"
  unfolding spec_tri_prechecks_def first_failure.simps
  by (simp only: if_split [of "\<lambda>x. x = None"] simp_thms option.simps)
     (auto simp add: not_le not_less)

lemma prechecks_codes:
  "first_failure (spec_tri_prechecks v1 v2 v3 pM pw tw) = Some c \<Longrightarrow> c \<noteq> LILAC_MESH_ERR_DUPEDG"
  unfolding spec_tri_prechecks_def
  by (auto simp add: err_codes split: if_splits)

lemma spec_consume_tri:
  assumes "a \<noteq> b" "b \<noteq> c" "a \<noteq> (c::int)"
  shows "spec_consume_edges [(a, b), (b, c), (c, a)] U =
     (if U a b then (False, U)
      else if U b c then (False, \<lambda>x y. (x = a \<and> y = b) \<or> U x y)
      else if U c a then (False, \<lambda>x y. (x = b \<and> y = c) \<or> (x = a \<and> y = b) \<or> U x y)
      else (True, \<lambda>x y. (x = c \<and> y = a) \<or> (x = b \<and> y = c) \<or> (x = a \<and> y = b) \<or> U x y))"
  using assms by auto

lemma spec_consume_tri_fst:
  assumes "first_failure (spec_tri_prechecks v1 v2 v3 pM pw tw) = None"
  shows "fst (spec_consume_edges (tri_edges v1 v2 v3) (edge_marked um)) \<longleftrightarrow>
         first_failure (spec_tri_checks v1 v2 v3 pM pw tw um) = None"
proof -
  from assms have "v1 \<noteq> v2" "v2 \<noteq> v3" "v1 \<noteq> v3"
    unfolding prechecks_None by simp_all
  then have d: "uint v1 \<noteq> uint v2" "uint v2 \<noteq> uint v3" "uint v1 \<noteq> uint v3"
    by (simp_all add: word_uint_eq_iff)
  show ?thesis
    unfolding tri_edges_def spec_consume_tri [OF d] spec_tri_checks_def first_failure_append
    using assms by simp
qed

lemma op_t_result:
  assumes par: "uint v1 \<le> LILAC_MESH_MAX_C" "uint v2 \<le> LILAC_MESH_MAX_C"
      "uint v3 \<le> LILAC_MESH_MAX_C" "0 \<le> pw" "pw \<le> LILAC_MESH_MAX_POINTS"
    and wf: "usage_map_wf um" and le: "pw \<le> um_point_count um"
    and mesh: "pw \<le> int (length (pPoints pM))" "0 \<le> tw" "tw \<le> tri_count pM"
      "int (length (pTris pM)) = 3 * tri_count pM"
  shows "case first_failure (spec_tri_checks v1 v2 v3 pM pw tw um) of
           Some c \<Rightarrow>
             (\<exists>um'. op_t v1 v2 v3 pM pw tw um e = Some (0, pM, tw, um', c) \<and>
                usage_map_wf um' \<and> um_point_count um' = um_point_count um \<and>
                pPointUse um' = pPointUse um \<and> (c \<noteq> LILAC_MESH_ERR_DUPEDG \<longrightarrow> um' = um) \<and>
                (\<forall>a b. 0 \<le> a \<and> a < um_point_count um \<and> 0 \<le> b \<and> b < um_point_count um \<longrightarrow>
                   edge_marked um' a b =
                     (if first_failure (spec_tri_prechecks v1 v2 v3 pM pw tw) = None
                      then snd (spec_consume_edges (tri_edges v1 v2 v3) (edge_marked um)) a b
                      else edge_marked um a b)))
         | None \<Rightarrow>
             (\<exists>um'. op_t v1 v2 v3 pM pw tw um e =
                  Some (1, pM\<lparr>pTris := (((pTris pM)[nat (tw * 3) := v1])
                                [nat (tw * 3) + 1 := v2])[nat (tw * 3) + 2 := v3]\<rparr>,
                        tw + 1, um', e) \<and>
                usage_map_wf um' \<and> um_point_count um' = um_point_count um \<and>
                (\<forall>j\<ge>0. point_marked um' j \<longleftrightarrow>
                   (j = uint v1 \<or> j = uint v2 \<or> j = uint v3 \<or> point_marked um j)) \<and>
                (\<forall>a b. 0 \<le> a \<and> a < um_point_count um \<and> 0 \<le> b \<and> b < um_point_count um \<longrightarrow>
                   edge_marked um' a b =
                     (if first_failure (spec_tri_prechecks v1 v2 v3 pM pw tw) = None
                      then snd (spec_consume_edges (tri_edges v1 v2 v3) (edge_marked um)) a b
                      else edge_marked um a b)))"
proof -
  define n where "n = um_point_count um"
  have nopar: "\<not> (uint v1 > LILAC_MESH_MAX_C \<or> uint v2 > LILAC_MESH_MAX_C \<or>
         uint v3 > LILAC_MESH_MAX_C \<or> pw < 0 \<or> pw > LILAC_MESH_MAX_POINTS)"
    using par by simp
  note opt = op_t_def [of v1 v2 v3 pM pw tw um e, unfolded if_not_P [OF nopar]]
  have tris: "tw > 0 \<longrightarrow> (tw - 1) * 3 + 1 < int (length (pTris pM))"
    using mesh by simp
  note cff = op_t_checks_first_failure [OF mesh(1) tris, of v1 v2 v3 e]
  show ?thesis
  proof (cases "first_failure (spec_tri_prechecks v1 v2 v3 pM pw tw)")
    case (Some c)
    then have chk: "op_t_checks v1 v2 v3 pM pw tw e = Some (0, c)"
      by (simp add: cff)
    have ff: "first_failure (spec_tri_checks v1 v2 v3 pM pw tw um) = Some c"
      unfolding spec_tri_checks_def first_failure_append using Some by simp
    have "op_t v1 v2 v3 pM pw tw um e = Some (0, pM, tw, um, c)"
      unfolding opt chk by simp
    with ff wf Some show ?thesis by simp
  next
    case None
    then have chk: "op_t_checks v1 v2 v3 pM pw tw e = Some (1, e)"
      by (simp add: cff)
    from None have pre: "uint v1 < pw" "uint v2 < pw" "uint v3 < pw"
        "v1 \<noteq> v2" "v2 \<noteq> v3" "v1 \<noteq> v3" "tw < tri_count pM"
      unfolding prechecks_None by simp_all
    have wr: "\<not> (tw < 0 \<or> tw * 3 + 2 \<ge> int (length (pTris pM)))"
      using mesh pre(7) by simp
    have r: "0 \<le> uint v1" "uint v1 < n" "0 \<le> uint v2" "uint v2 < n" "0 \<le> uint v3" "uint v3 < n"
      using pre le unfolding n_def by simp_all
    have d: "uint v1 \<noteq> uint v2" "uint v2 \<noteq> uint v3" "uint v1 \<noteq> uint v3"
      using pre by (simp_all add: word_uint_eq_iff)
    note cons = spec_consume_tri [OF d, of "edge_marked um", folded tri_edges_def]
    have ff: "first_failure (spec_tri_checks v1 v2 v3 pM pw tw um) =
        first_failure [(edge_marked um (uint v1) (uint v2), LILAC_MESH_ERR_DUPEDG),
          (edge_marked um (uint v2) (uint v3), LILAC_MESH_ERR_DUPEDG),
          (edge_marked um (uint v3) (uint v1), LILAC_MESH_ERR_DUPEDG)]"
      unfolding spec_tri_checks_def first_failure_append using None by simp
    from usage_map_edge_Some [OF wf, of "uint v1" "uint v2"] r obtain um1 where
      um1: "usage_map_edge um (uint v1) (uint v2) =
              Some (if edge_marked um (uint v1) (uint v2) then 0 else 1, um1)"
        "usage_map_wf um1" "um_point_count um1 = n" "pPointUse um1 = pPointUse um"
        "\<forall>a b. 0 \<le> a \<and> a < n \<and> 0 \<le> b \<and> b < n \<longrightarrow>
              (edge_marked um1 a b \<longleftrightarrow> (a = uint v1 \<and> b = uint v2) \<or> edge_marked um a b)"
      unfolding n_def by blast
    show ?thesis
    proof (cases "edge_marked um (uint v1) (uint v2)")
      case True
      have "op_t v1 v2 v3 pM pw tw um e = Some (0, pM, tw, um1, LILAC_MESH_ERR_DUPEDG)"
        unfolding opt chk using um1(1) True by simp
      moreover have "first_failure (spec_tri_checks v1 v2 v3 pM pw tw um) = Some LILAC_MESH_ERR_DUPEDG"
        unfolding ff using True by simp
      moreover have "edge_marked um1 a b =
          snd (spec_consume_edges (tri_edges v1 v2 v3) (edge_marked um)) a b"
        if "0 \<le> a" "a < n" "0 \<le> b" "b < n" for a b
        unfolding cons using um1(5) that True by auto
      ultimately show ?thesis using um1(2,3,4) None unfolding n_def by simp
    next
      case e1: False
      from usage_map_edge_Some [OF um1(2), of "uint v2" "uint v3"] r um1(3) obtain um2 where
        um2: "usage_map_edge um1 (uint v2) (uint v3) =
                Some (if edge_marked um1 (uint v2) (uint v3) then 0 else 1, um2)"
          "usage_map_wf um2" "um_point_count um2 = n" "pPointUse um2 = pPointUse um1"
          "\<forall>a b. 0 \<le> a \<and> a < n \<and> 0 \<le> b \<and> b < n \<longrightarrow>
                (edge_marked um2 a b \<longleftrightarrow> (a = uint v2 \<and> b = uint v3) \<or> edge_marked um1 a b)"
        by auto
      have m2: "edge_marked um1 (uint v2) (uint v3) \<longleftrightarrow> edge_marked um (uint v2) (uint v3)"
        using um1(5) r d by simp
      show ?thesis
      proof (cases "edge_marked um (uint v2) (uint v3)")
        case True
        have "op_t v1 v2 v3 pM pw tw um e = Some (0, pM, tw, um2, LILAC_MESH_ERR_DUPEDG)"
          unfolding opt chk using um1(1) e1 um2(1) True m2 by simp
        moreover have "first_failure (spec_tri_checks v1 v2 v3 pM pw tw um) = Some LILAC_MESH_ERR_DUPEDG"
          unfolding ff using True e1 by simp
        moreover have "edge_marked um2 a b =
            snd (spec_consume_edges (tri_edges v1 v2 v3) (edge_marked um)) a b"
          if "0 \<le> a" "a < n" "0 \<le> b" "b < n" for a b
          unfolding cons using um1(5) um2(5) that True e1 by auto
        ultimately show ?thesis using um1(4) um2(2,3,4) None unfolding n_def by simp
      next
        case e2: False
        from usage_map_edge_Some [OF um2(2), of "uint v3" "uint v1"] r um2(3) obtain um3 where
          um3: "usage_map_edge um2 (uint v3) (uint v1) =
                  Some (if edge_marked um2 (uint v3) (uint v1) then 0 else 1, um3)"
            "usage_map_wf um3" "um_point_count um3 = n" "pPointUse um3 = pPointUse um2"
            "\<forall>a b. 0 \<le> a \<and> a < n \<and> 0 \<le> b \<and> b < n \<longrightarrow>
                  (edge_marked um3 a b \<longleftrightarrow> (a = uint v3 \<and> b = uint v1) \<or> edge_marked um2 a b)"
          by auto
        have m3: "edge_marked um2 (uint v3) (uint v1) \<longleftrightarrow> edge_marked um (uint v3) (uint v1)"
          using um1(5) um2(5) r d by simp
        show ?thesis
        proof (cases "edge_marked um (uint v3) (uint v1)")
          case True
          have "op_t v1 v2 v3 pM pw tw um e = Some (0, pM, tw, um3, LILAC_MESH_ERR_DUPEDG)"
            unfolding opt chk using um1(1) e1 um2(1) e2 m2 um3(1) True m3 by simp
          moreover have "first_failure (spec_tri_checks v1 v2 v3 pM pw tw um) = Some LILAC_MESH_ERR_DUPEDG"
            unfolding ff using True e1 e2 by simp
          moreover have "edge_marked um3 a b =
              snd (spec_consume_edges (tri_edges v1 v2 v3) (edge_marked um)) a b"
            if "0 \<le> a" "a < n" "0 \<le> b" "b < n" for a b
            unfolding cons using um1(5) um2(5) um3(5) that True e1 e2 by auto
          ultimately show ?thesis using um1(4) um2(4) um3(2,3,4) None unfolding n_def by simp
        next
          case e3: False
          from usage_map_point_Some [OF um3(2), of "uint v1"] r um3(3) obtain um4 where
            um4: "usage_map_point um3 (uint v1) = Some um4" "usage_map_wf um4"
              "um_point_count um4 = n" "pEdgeUse um4 = pEdgeUse um3"
              "\<forall>j\<ge>0. point_marked um4 j \<longleftrightarrow> (j = uint v1 \<or> point_marked um3 j)"
            by auto
          from usage_map_point_Some [OF um4(2), of "uint v2"] r um4(3) obtain um5 where
            um5: "usage_map_point um4 (uint v2) = Some um5" "usage_map_wf um5"
              "um_point_count um5 = n" "pEdgeUse um5 = pEdgeUse um4"
              "\<forall>j\<ge>0. point_marked um5 j \<longleftrightarrow> (j = uint v2 \<or> point_marked um4 j)"
            by auto
          from usage_map_point_Some [OF um5(2), of "uint v3"] r um5(3) obtain um6 where
            um6: "usage_map_point um5 (uint v3) = Some um6" "usage_map_wf um6"
              "um_point_count um6 = n" "pEdgeUse um6 = pEdgeUse um5"
              "\<forall>j\<ge>0. point_marked um6 j \<longleftrightarrow> (j = uint v3 \<or> point_marked um5 j)"
            by auto
          have pm: "point_marked um3 j = point_marked um j" for j
            unfolding point_marked_def um3(4) um2(4) um1(4) ..
          have marks: "\<forall>j\<ge>0. point_marked um6 j \<longleftrightarrow>
                   (j = uint v1 \<or> j = uint v2 \<or> j = uint v3 \<or> point_marked um j)"
            using um4(5) um5(5) um6(5) pm by auto
          have "op_t v1 v2 v3 pM pw tw um e =
                  Some (1, pM\<lparr>pTris := (((pTris pM)[nat (tw * 3) := v1])
                                [nat (tw * 3) + 1 := v2])[nat (tw * 3) + 2 := v3]\<rparr>,
                        tw + 1, um6, e)"
            unfolding opt chk
            using um1(1) e1 um2(1) e2 m2 um3(1) e3 m3 um4(1) um5(1) um6(1) wr
            by (simp add: Let_def)
          moreover have "first_failure (spec_tri_checks v1 v2 v3 pM pw tw um) = None"
            unfolding ff using e1 e2 e3 by simp
          moreover have "edge_marked um6 a b =
              snd (spec_consume_edges (tri_edges v1 v2 v3) (edge_marked um)) a b"
            if "0 \<le> a" "a < n" "0 \<le> b" "b < n" for a b
          proof -
            have "edge_marked um6 a b = edge_marked um3 a b"
              unfolding edge_marked_def um6(3,4) um5(3,4) um4(4) um3(3) ..
            then show ?thesis
              unfolding cons using um1(5) um2(5) um3(5) that e1 e2 e3 by auto
          qed
          ultimately show ?thesis using um6(2,3) marks None unfolding n_def by simp
        qed
      qed
    qed
  qed
qed

text \<open>
  Claim C2.  Whenever the triangle operation does not abort (its arguments are within
  their documented ranges, the usage map is the one dimensioned for the mesh, the points
  written so far fit the point array and the triangle array has room for the declared
  count, of which at most that many are written), its status and error code are those
  of the first failing check in the list PTREF, VXDUP, VXORD, ORIENT, TRSORT, TROVER,
  DUPEDG (edge \<open>v1 \<rightarrow> v2\<close>, then \<open>v2 \<rightarrow> v3\<close>, then \<open>v3 \<rightarrow> v1\<close>), and it succeeds,
  leaving the error code untouched, when no check fails.  In particular a triangle of
  defined points with two equal vertices reports VXDUP, whatever its orientation.

  The state it returns is fixed as well.  On failure the mesh, the triangle counter and
  the point marks of the usage map are the ones received; on success the triangle is
  stored at the position of the counter, the counter is advanced and the three vertices
  are marked.  A failure before the usage map leaves the usage map as it was.  Once the
  usage map is reached, the operation succeeds exactly when consuming the edges
  \<open>v1 \<rightarrow> v2\<close>, \<open>v2 \<rightarrow> v3\<close>, \<open>v3 \<rightarrow> v1\<close> one after the other succeeds, and the
  edges marked in the returned usage map are those in use after that consumption: on
  a DUPEDG failure, the edges consumed before the one already used stay recorded.
\<close>

theorem op_t_check_order:
  assumes "uint v1 \<le> LILAC_MESH_MAX_C" "uint v2 \<le> LILAC_MESH_MAX_C"
      "uint v3 \<le> LILAC_MESH_MAX_C" "0 \<le> pw" "pw \<le> LILAC_MESH_MAX_POINTS"
    and "usage_map_wf um" and "pw \<le> um_point_count um"
    and "pw \<le> int (length (pPoints pM))" "0 \<le> tw" "tw \<le> tri_count pM"
      "int (length (pTris pM)) = 3 * tri_count pM"
  shows "\<exists>st pM' tw' um' e'.
           op_t v1 v2 v3 pM pw tw um e = Some (st, pM', tw', um', e') \<and>
           (case first_failure (spec_tri_checks v1 v2 v3 pM pw tw um) of
              Some c \<Rightarrow> st = 0 \<and> e' = c
            | None \<Rightarrow> st \<noteq> 0 \<and> e' = e) \<and>
           (uint v1 < pw \<and> uint v2 < pw \<and> uint v3 < pw \<and> (v1 = v2 \<or> v2 = v3 \<or> v1 = v3)
              \<longrightarrow> st = 0 \<and> e' = LILAC_MESH_ERR_VXDUP) \<and>
           (st = 0 \<longrightarrow> pM' = pM \<and> tw' = tw \<and> pPointUse um' = pPointUse um) \<and>
           (st \<noteq> 0 \<longrightarrow>
              pM' = pM\<lparr>pTris := (((pTris pM)[nat (tw * 3) := v1])
                                [nat (tw * 3) + 1 := v2])[nat (tw * 3) + 2 := v3]\<rparr> \<and>
              tw' = tw + 1 \<and>
              (\<forall>j\<ge>0. point_marked um' j \<longleftrightarrow>
                 (j = uint v1 \<or> j = uint v2 \<or> j = uint v3 \<or> point_marked um j))) \<and>
           usage_map_wf um' \<and> um_point_count um' = um_point_count um \<and>
           (first_failure (spec_tri_prechecks v1 v2 v3 pM pw tw) \<noteq> None \<longrightarrow> um' = um) \<and>
           (first_failure (spec_tri_prechecks v1 v2 v3 pM pw tw) = None \<longrightarrow>
              (st \<noteq> 0) = fst (spec_consume_edges (tri_edges v1 v2 v3) (edge_marked um)) \<and>
              (\<forall>a b. 0 \<le> a \<and> a < um_point_count um \<and> 0 \<le> b \<and> b < um_point_count um \<longrightarrow>
                 edge_marked um' a b =
                   snd (spec_consume_edges (tri_edges v1 v2 v3) (edge_marked um)) a b))"
proof -
  let ?ff = "first_failure (spec_tri_checks v1 v2 v3 pM pw tw um)"
  let ?pre = "first_failure (spec_tri_prechecks v1 v2 v3 pM pw tw)"
  let ?after = "snd (spec_consume_edges (tri_edges v1 v2 v3) (edge_marked um))"
  have dup: "?ff = Some LILAC_MESH_ERR_VXDUP"
    if "uint v1 < pw \<and> uint v2 < pw \<and> uint v3 < pw \<and> (v1 = v2 \<or> v2 = v3 \<or> v1 = v3)"
    using that unfolding spec_tri_checks_def spec_tri_prechecks_def by auto
  note res = op_t_result [OF assms, where e = e]
  show ?thesis
  proof (cases ?ff)
    case None
    then have pre: "?pre = None"
      unfolding spec_tri_checks_def first_failure_append by (simp split: option.splits)
    have ok: "fst (spec_consume_edges (tri_edges v1 v2 v3) (edge_marked um))"
      using spec_consume_tri_fst [OF pre, of um] None by simp
    from res [unfolded None option.case] obtain um' where
      r: "op_t v1 v2 v3 pM pw tw um e =
            Some (1, pM\<lparr>pTris := (((pTris pM)[nat (tw * 3) := v1])
                                [nat (tw * 3) + 1 := v2])[nat (tw * 3) + 2 := v3]\<rparr>,
                  tw + 1, um', e)"
      and wf': "usage_map_wf um'" and cnt': "um_point_count um' = um_point_count um"
      and marks: "\<forall>j\<ge>0. point_marked um' j \<longleftrightarrow>
                   (j = uint v1 \<or> j = uint v2 \<or> j = uint v3 \<or> point_marked um j)"
      and edges0: "\<forall>a b. 0 \<le> a \<and> a < um_point_count um \<and> 0 \<le> b \<and> b < um_point_count um \<longrightarrow>
                   edge_marked um' a b = (if ?pre = None then ?after a b else edge_marked um a b)"
      by (elim exE conjE) (rule that)
    have edges: "\<forall>a b. 0 \<le> a \<and> a < um_point_count um \<and> 0 \<le> b \<and> b < um_point_count um \<longrightarrow>
                   edge_marked um' a b = ?after a b"
      using edges0 by (simp only: pre simp_thms if_True)
    have nodup: "\<not> (uint v1 < pw \<and> uint v2 < pw \<and> uint v3 < pw \<and> (v1 = v2 \<or> v2 = v3 \<or> v1 = v3))"
      using dup None by auto
    show ?thesis
      apply (rule exI [of _ 1])
      apply (rule exI [of _ "pM\<lparr>pTris := (((pTris pM)[nat (tw * 3) := v1])
                                [nat (tw * 3) + 1 := v2])[nat (tw * 3) + 2 := v3]\<rparr>"])
      apply (rule exI [of _ "tw + 1"])
      apply (rule exI [of _ um'])
      apply (rule exI [of _ e])
      apply (intro conjI)
      subgoal by (rule r)
      subgoal unfolding None by simp
      subgoal using nodup by blast
      subgoal by simp
      subgoal by (intro impI conjI refl marks)
      subgoal by (rule wf')
      subgoal by (rule cnt')
      subgoal using pre by simp
      subgoal using ok by (intro impI conjI edges) simp
      done
  next
    case (Some c)
    from res [unfolded Some option.case] obtain um' where
      r: "op_t v1 v2 v3 pM pw tw um e = Some (0, pM, tw, um', c)"
      and wf': "usage_map_wf um'" and cnt': "um_point_count um' = um_point_count um"
      and pts: "pPointUse um' = pPointUse um"
      and same: "c \<noteq> LILAC_MESH_ERR_DUPEDG \<longrightarrow> um' = um"
      and edges: "\<forall>a b. 0 \<le> a \<and> a < um_point_count um \<and> 0 \<le> b \<and> b < um_point_count um \<longrightarrow>
                   edge_marked um' a b = (if ?pre = None then ?after a b else edge_marked um a b)"
      by (elim exE conjE) (rule that)
    have vx: "c = LILAC_MESH_ERR_VXDUP"
      if "uint v1 < pw \<and> uint v2 < pw \<and> uint v3 < pw \<and> (v1 = v2 \<or> v2 = v3 \<or> v1 = v3)"
      using dup [OF that] Some by simp
    have early: "um' = um" if "?pre \<noteq> None"
    proof -
      from that obtain c' where c': "?pre = Some c'" by auto
      then have "?ff = Some c'"
        unfolding spec_tri_checks_def first_failure_append by simp
      with Some have "c = c'" by simp
      with prechecks_codes [OF c'] same show ?thesis by simp
    qed
    have late: "\<not> fst (spec_consume_edges (tri_edges v1 v2 v3) (edge_marked um))"
      if "?pre = None"
      using spec_consume_tri_fst [OF that, of um] Some by simp
    show ?thesis
      apply (rule exI [of _ 0])
      apply (rule exI [of _ pM])
      apply (rule exI [of _ tw])
      apply (rule exI [of _ um'])
      apply (rule exI [of _ c])
      apply (intro conjI)
      subgoal by (rule r)
      subgoal unfolding Some by simp
      subgoal using vx by blast
      subgoal using pts by simp
      subgoal by simp
      subgoal by (rule wf')
      subgoal by (rule cnt')
      subgoal using early by blast
      subgoal
      proof (intro impI conjI)
        assume p: "?pre = None"
        show "(0 \<noteq> (0::int)) = fst (spec_consume_edges (tri_edges v1 v2 v3) (edge_marked um))"
          using late [OF p] by simp
        show "\<forall>a b. 0 \<le> a \<and> a < um_point_count um \<and> 0 \<le> b \<and> b < um_point_count um \<longrightarrow>
                 edge_marked um' a b = ?after a b"
          using edges by (simp only: p simp_thms if_True)
      qed
      done
  qed
qed

theorem op_t_check_order_witness:
  "(\<exists>um'.
     op_t 0 1 2
       \<lparr>pPoints = [\<lparr>normd = 0, norma = 0, pt_x = 0, pt_y = 0\<rparr>,
                   \<lparr>normd = 0, norma = 0, pt_x = 16384, pt_y = 0\<rparr>,
                   \<lparr>normd = 0, norma = 0, pt_x = 16384, pt_y = 16384\<rparr>,
                   \<lparr>normd = 0, norma = 0, pt_x = 0, pt_y = 16384\<rparr>],
        pTris = [0, 0, 0, 0, 0, 0], point_count = 4, tri_count = 2\<rparr>
       4 0 \<lparr>pPointUse = [0], pEdgeUse = [33554432], um_point_count = 4\<rparr> 0
     = Some (0, \<lparr>pPoints = [\<lparr>normd = 0, norma = 0, pt_x = 0, pt_y = 0\<rparr>,
                   \<lparr>normd = 0, norma = 0, pt_x = 16384, pt_y = 0\<rparr>,
                   \<lparr>normd = 0, norma = 0, pt_x = 16384, pt_y = 16384\<rparr>,
                   \<lparr>normd = 0, norma = 0, pt_x = 0, pt_y = 16384\<rparr>],
        pTris = [0, 0, 0, 0, 0, 0], point_count = 4, tri_count = 2\<rparr>, 0, um',
        LILAC_MESH_ERR_DUPEDG) \<and>
     pPointUse um' = [0] \<and>
     edge_marked um' 0 1 \<and> edge_marked um' 1 2 \<and> \<not> edge_marked um' 2 0) \<and>
   (\<exists>um'.
     op_t 0 1 1
       \<lparr>pPoints = [\<lparr>normd = 0, norma = 0, pt_x = 0, pt_y = 0\<rparr>,
                   \<lparr>normd = 0, norma = 0, pt_x = 16384, pt_y = 0\<rparr>,
                   \<lparr>normd = 0, norma = 0, pt_x = 16384, pt_y = 16384\<rparr>,
                   \<lparr>normd = 0, norma = 0, pt_x = 0, pt_y = 16384\<rparr>],
        pTris = [0, 0, 0, 0, 0, 0], point_count = 4, tri_count = 2\<rparr>
       4 0 \<lparr>pPointUse = [0], pEdgeUse = [0], um_point_count = 4\<rparr> 0
     = Some (0, \<lparr>pPoints = [\<lparr>normd = 0, norma = 0, pt_x = 0, pt_y = 0\<rparr>,
                   \<lparr>normd = 0, norma = 0, pt_x = 16384, pt_y = 0\<rparr>,
                   \<lparr>normd = 0, norma = 0, pt_x = 16384, pt_y = 16384\<rparr>,
                   \<lparr>normd = 0, norma = 0, pt_x = 0, pt_y = 16384\<rparr>],
        pTris = [0, 0, 0, 0, 0, 0], point_count = 4, tri_count = 2\<rparr>, 0, um',
        LILAC_MESH_ERR_VXDUP) \<and>
     um' = \<lparr>pPointUse = [0], pEdgeUse = [0], um_point_count = 4\<rparr>)"
proof -
  define M where "M = \<lparr>pPoints = [\<lparr>normd = 0, norma = 0, pt_x = 0, pt_y = 0\<rparr>,
                   \<lparr>normd = 0, norma = 0, pt_x = 16384, pt_y = 0\<rparr>,
                   \<lparr>normd = 0, norma = 0, pt_x = 16384, pt_y = 16384\<rparr>,
                   \<lparr>normd = 0, norma = 0, pt_x = 0, pt_y = 16384\<rparr>],
        pTris = [0, 0, 0, 0, 0, 0], point_count = 4, tri_count = 2\<rparr>"
  define U where "U = \<lparr>pPointUse = [0], pEdgeUse = [33554432], um_point_count = 4\<rparr>"
  define U0 where "U0 = \<lparr>pPointUse = [0], pEdgeUse = [0], um_point_count = 4\<rparr>"
  have a: "uint (0 :: 16 word) \<le> LILAC_MESH_MAX_C" "uint (1 :: 16 word) \<le> LILAC_MESH_MAX_C"
    "uint (2 :: 16 word) \<le> LILAC_MESH_MAX_C"
    "(0::int) \<le> 4" "(4::int) \<le> LILAC_MESH_MAX_POINTS"
    by (simp_all add: LILAC_MESH_MAX_C_def LILAC_MESH_MAX_POINTS_def)
  have wf: "usage_map_wf U" "usage_map_wf U0"
    by (simp_all add: U_def U0_def usage_map_wf_def LILAC_MESH_MAX_POINTS_def)
  have le: "4 \<le> um_point_count U" "4 \<le> um_point_count U0"
    by (simp_all add: U_def U0_def)
  have m: "4 \<le> int (length (pPoints M))" "(0::int) \<le> 0" "0 \<le> tri_count M"
    "int (length (pTris M)) = 3 * tri_count M"
    by (simp_all add: M_def)
  have em: "\<not> edge_marked U 0 1" "edge_marked U 1 2" "\<not> edge_marked U 2 0"
    by (simp_all add: U_def edge_marked_def point_bit_def)
  have pre: "first_failure (spec_tri_prechecks 0 1 2 M 4 0) = None"
    by (simp add: spec_tri_prechecks_def M_def signed_area_def)
  have ff: "first_failure (spec_tri_checks 0 1 2 M 4 0 U) = Some LILAC_MESH_ERR_DUPEDG"
    unfolding spec_tri_checks_def first_failure_append pre using em by simp
  have after: "snd (spec_consume_edges (tri_edges 0 1 2) (edge_marked U)) 0 1"
    "snd (spec_consume_edges (tri_edges 0 1 2) (edge_marked U)) 1 2"
    "\<not> snd (spec_consume_edges (tri_edges 0 1 2) (edge_marked U)) 2 0"
    using em by (simp_all add: tri_edges_def)
  have rg: "(0::int) \<le> 0 \<and> (0::int) < um_point_count U \<and> (0::int) \<le> 1 \<and> 1 < um_point_count U"
    "(0::int) \<le> 1 \<and> 1 < um_point_count U \<and> (0::int) \<le> 2 \<and> 2 < um_point_count U"
    "(0::int) \<le> 2 \<and> 2 < um_point_count U \<and> (0::int) \<le> 0 \<and> 0 < um_point_count U"
    by (simp_all add: U_def)
  from op_t_check_order [OF a(1) a(2) a(3) a(4) a(5) wf(1) le(1) m, of 0]
  obtain st pM' tw' um' e' where
    r: "op_t 0 1 2 M 4 0 U 0 = Some (st, pM', tw', um', e')"
    and c: "case first_failure (spec_tri_checks 0 1 2 M 4 0 U) of
              Some c \<Rightarrow> st = 0 \<and> e' = c | None \<Rightarrow> st \<noteq> 0 \<and> e' = 0"
    and f: "st = 0 \<longrightarrow> pM' = M \<and> tw' = 0 \<and> pPointUse um' = pPointUse U"
    and ed: "first_failure (spec_tri_prechecks 0 1 2 M 4 0) = None \<longrightarrow>
              (st \<noteq> 0) = fst (spec_consume_edges (tri_edges 0 1 2) (edge_marked U)) \<and>
              (\<forall>a b. 0 \<le> a \<and> a < um_point_count U \<and> 0 \<le> b \<and> b < um_point_count U \<longrightarrow>
                 edge_marked um' a b =
                   snd (spec_consume_edges (tri_edges 0 1 2) (edge_marked U)) a b)"
    by (elim exE conjE) (rule that)
  from c have st: "st = 0" "e' = LILAC_MESH_ERR_DUPEDG" unfolding ff by simp_all
  from ed pre have edges: "\<forall>a b. 0 \<le> a \<and> a < um_point_count U \<and> 0 \<le> b \<and> b < um_point_count U \<longrightarrow>
                 edge_marked um' a b =
                   snd (spec_consume_edges (tri_edges 0 1 2) (edge_marked U)) a b"
    by simp
  have e1: "edge_marked um' 0 1" "edge_marked um' 1 2" "\<not> edge_marked um' 2 0"
    using edges [rule_format, OF rg(1)] edges [rule_format, OF rg(2)]
      edges [rule_format, OF rg(3)] after by simp_all
  have first: "\<exists>um'. op_t 0 1 2 M 4 0 U 0 = Some (0, M, 0, um', LILAC_MESH_ERR_DUPEDG) \<and>
      pPointUse um' = [0] \<and>
      edge_marked um' 0 1 \<and> edge_marked um' 1 2 \<and> \<not> edge_marked um' 2 0"
    using r st f e1 by (auto simp add: U_def)
  have v: "uint (0 :: 16 word) < 4 \<and> uint (1 :: 16 word) < 4 \<and> uint (1 :: 16 word) < 4 \<and>
      ((0 :: 16 word) = 1 \<or> (1 :: 16 word) = 1 \<or> (0 :: 16 word) = 1)"
    by simp
  have pre0: "first_failure (spec_tri_prechecks 0 1 1 M 4 0) \<noteq> None"
    by (simp add: spec_tri_prechecks_def)
  from op_t_check_order [OF a(1) a(2) a(2) a(4) a(5) wf(2) le(2) m, of 0]
  obtain st0 pM0 tw0 um0 e0 where
    r0: "op_t 0 1 1 M 4 0 U0 0 = Some (st0, pM0, tw0, um0, e0)"
    and v0: "uint (0 :: 16 word) < 4 \<and> uint (1 :: 16 word) < 4 \<and> uint (1 :: 16 word) < 4 \<and>
      ((0 :: 16 word) = 1 \<or> (1 :: 16 word) = 1 \<or> (0 :: 16 word) = 1)
        \<longrightarrow> st0 = 0 \<and> e0 = LILAC_MESH_ERR_VXDUP"
    and f0: "st0 = 0 \<longrightarrow> pM0 = M \<and> tw0 = 0 \<and> pPointUse um0 = pPointUse U0"
    and u0: "first_failure (spec_tri_prechecks 0 1 1 M 4 0) \<noteq> None \<longrightarrow> um0 = U0"
    by (elim exE conjE) (rule that)
  have second: "\<exists>um'. op_t 0 1 1 M 4 0 U0 0 = Some (0, M, 0, um', LILAC_MESH_ERR_VXDUP) \<and>
      um' = U0"
    using r0 v0 v f0 u0 pre0 by auto
  from first second show ?thesis unfolding M_def U_def U0_def by blast
qed

lemma op_p_failure:
  "op_p nd na x y pM pw e = Some (0, pM', pw', e') \<Longrightarrow> pM' = pM \<and> pw' = pw"
  unfolding op_p_def Let_def
  by (simp split: if_splits)

lemma op_t_failure:
  assumes "op_t v1 v2 v3 pM pw tw um e = Some (0, pM', tw', um', e')"
  shows "pM' = pM \<and> tw' = tw \<and> (e' \<noteq> LILAC_MESH_ERR_DUPEDG \<longrightarrow> um' = um)"
proof (cases "op_t_checks v1 v2 v3 pM pw tw e")
  case None
  from assms show ?thesis
    unfolding op_t_def None by (simp split: if_splits)
next
  case (Some a)
  obtain r c where a: "a = (r, c)" by (cases a)
  note chk = Some [unfolded a]
  from op_t_checks_codes [OF chk] show ?thesis
  proof
    assume "r = 0 \<and> c \<noteq> LILAC_MESH_ERR_DUPEDG"
    with assms show ?thesis
      unfolding op_t_def chk by (simp split: if_splits)
  next
    assume "r = 1 \<and> c = e"
    with assms show ?thesis
      unfolding op_t_def chk
      by (simp add: Let_def split: if_splits option.splits prod.splits)
  qed
qed

text \<open>
  Claim C9.  When \<open>op_t\<close> returns failure the mesh and the count of triangles written
  are unchanged, and the usage map is unchanged too unless the error is DUPEDG; when
  \<open>op_p\<close> returns failure the mesh and the count of points written are unchanged.
\<close>

theorem loader_ops_atomic:
  "(op_t v1 v2 v3 pM ptsWritten triWritten um e = Some (0, pM', triWritten', um', e') \<longrightarrow>
      pM' = pM \<and> triWritten' = triWritten \<and> (e' \<noteq> LILAC_MESH_ERR_DUPEDG \<longrightarrow> um' = um)) \<and>
   (op_p nd na x y pM ptsWritten e = Some (0, pM'', ptsWritten', e'') \<longrightarrow>
      pM'' = pM \<and> ptsWritten' = ptsWritten)"
proof (rule conjI; rule impI)
  assume "op_t v1 v2 v3 pM ptsWritten triWritten um e = Some (0, pM', triWritten', um', e')"
  then show "pM' = pM \<and> triWritten' = triWritten \<and> (e' \<noteq> LILAC_MESH_ERR_DUPEDG \<longrightarrow> um' = um)"
    by (rule op_t_failure)
next
  assume "op_p nd na x y pM ptsWritten e = Some (0, pM'', ptsWritten', e'')"
  then show "pM'' = pM \<and> ptsWritten' = ptsWritten"
    by (rule op_p_failure)
qed

theorem loader_ops_atomic_witness:
  "op_t 0 1 1
       \<lparr>pPoints = [\<lparr>normd = 0, norma = 0, pt_x = 0, pt_y = 0\<rparr>,
                   \<lparr>normd = 0, norma = 0, pt_x = 16384, pt_y = 0\<rparr>],
        pTris = [0, 0, 0], point_count = 2, tri_count = 1\<rparr>
       2 0 \<lparr>pPointUse = [0], pEdgeUse = [0], um_point_count = 2\<rparr> 0
     = Some (0, \<lparr>pPoints = [\<lparr>normd = 0, norma = 0, pt_x = 0, pt_y = 0\<rparr>,
                   \<lparr>normd = 0, norma = 0, pt_x = 16384, pt_y = 0\<rparr>],
        pTris = [0, 0, 0], point_count = 2, tri_count = 1\<rparr>, 0,
        \<lparr>pPointUse = [0], pEdgeUse = [0], um_point_count = 2\<rparr>, LILAC_MESH_ERR_VXDUP)
   \<and> op_p 0 5 7 7
       \<lparr>pPoints = [\<lparr>normd = 0, norma = 0, pt_x = 0, pt_y = 0\<rparr>,
                   \<lparr>normd = 0, norma = 0, pt_x = 16384, pt_y = 0\<rparr>],
        pTris = [0, 0, 0], point_count = 2, tri_count = 1\<rparr> 2 0
     = Some (0, \<lparr>pPoints = [\<lparr>normd = 0, norma = 0, pt_x = 0, pt_y = 0\<rparr>,
                   \<lparr>normd = 0, norma = 0, pt_x = 16384, pt_y = 0\<rparr>],
        pTris = [0, 0, 0], point_count = 2, tri_count = 1\<rparr>, 2, LILAC_MESH_ERR_NORMDA)"
proof -
  define Q where "Q = \<lparr>pPoints = [\<lparr>normd = 0, norma = 0, pt_x = 0, pt_y = 0\<rparr>,
                   \<lparr>normd = 0, norma = 0, pt_x = 16384, pt_y = 0\<rparr>],
        pTris = [0, 0, 0], point_count = 2, tri_count = 1\<rparr>"
  define U where "U = \<lparr>pPointUse = [0], pEdgeUse = [0], um_point_count = 2\<rparr>"
  have "\<exists>pM' tw' um' e'. op_t 0 1 1 Q 2 0 U 0 = Some (0, pM', tw', um', e') \<and> e' = LILAC_MESH_ERR_VXDUP"
    unfolding Q_def U_def
    by (simp add: op_t_def op_t_checks_def Let_def LILAC_MESH_MAX_C_def LILAC_MESH_MAX_POINTS_def)
  then obtain pM' tw' um' where
    t: "op_t 0 1 1 Q 2 0 U 0 = Some (0, pM', tw', um', LILAC_MESH_ERR_VXDUP)" by blast
  have "\<exists>pM' pw'. op_p 0 5 7 7 Q 2 0 = Some (0, pM', pw', LILAC_MESH_ERR_NORMDA)"
    unfolding Q_def
    by (simp add: op_p_def Let_def LILAC_MESH_MAX_C_def)
  then obtain pM'' pw' where
    p: "op_p 0 5 7 7 Q 2 0 = Some (0, pM'', pw', LILAC_MESH_ERR_NORMDA)" by blast
  have ne: "LILAC_MESH_ERR_VXDUP \<noteq> LILAC_MESH_ERR_DUPEDG" by (simp add: err_codes)
  from loader_ops_atomic [of 0 1 1 Q 2 0 U 0 pM' tw' um' LILAC_MESH_ERR_VXDUP 0 5 7 7 pM'' pw'
      LILAC_MESH_ERR_NORMDA] t p ne
  have "pM' = Q \<and> tw' = 0 \<and> um' = U \<and> pM'' = Q \<and> pw' = 2" by blast
  with t p show ?thesis unfolding Q_def U_def by simp
qed

subsection \<open>The loader\<close>

lemma hdr_read_cases:
  "hdr_read pSn ex code wl = Inr (ent, pSn') \<Longrightarrow> ex ent"
  unfolding hdr_read_def Let_def
  by (auto split: prod.splits SNENTITY.splits if_splits)

lemma readHeader_range:
  assumes "readHeader pSn = Inr (pc, tc, pSn')"
  shows "0 \<le> pc \<and> pc \<le> LILAC_MESH_MAX_POINTS \<and> 0 \<le> tc \<and> tc \<le> LILAC_MESH_MAX_TRIS"
  using assms unfolding readHeader_def hdr_fail_def Let_def
  by (simp split: sum.splits prod.splits if_splits)

lemma loader_init_inv:
  assumes "0 \<le> pc" "pc \<le> LILAC_MESH_MAX_POINTS" "0 \<le> tc" "tc \<le> LILAC_MESH_MAX_TRIS"
    and "usage_map_dim usage_map_init pc = Some um"
  shows "loader_inv pc tc (loader_init pc tc um)"
proof -
  from usage_map_dim_Some [OF assms(1,2), of usage_map_init] assms(5)
  have um: "usage_map_wf um" "um_point_count um = pc"
    "pPointUse um = replicate (nat ((pc + 31) div 32)) 0" by auto
  have "\<not> point_marked um j" if "0 \<le> j" "j < pc" for j
    unfolding point_marked_def um(3) using that by (rule point_bit_replicate_zero)
  moreover have "nat (tc * 3) = 3 * nat tc" using assms(3) by (simp add: nat_mult_distrib)
  ultimately show ?thesis
    using assms um unfolding loader_inv_def loader_init_def MAX_SN_STACK_def
    by simp
qed

lemma loader_invD:
  assumes "loader_inv pc tc s"
  shows "0 \<le> pc" "pc \<le> LILAC_MESH_MAX_POINTS" "0 \<le> tc" "tc \<le> LILAC_MESH_MAX_TRIS"
    and "usage_map_wf (ld_um s)" "um_point_count (ld_um s) = pc"
    and "point_count (ld_pM s) = pc" "tri_count (ld_pM s) = tc"
    and "length (pTris (ld_pM s)) = 3 * nat tc"
    and "0 \<le> points_written s" "points_written s \<le> pc"
    and "0 \<le> tris_written s" "tris_written s \<le> tc"
    and "length (st s) = 16" "0 \<le> st_count s" "st_count s \<le> 16"
    and "\<And>k. k < nat (st_count s) \<Longrightarrow> uint (st s ! k) \<le> LILAC_MESH_MAX_C"
    and "\<And>k. k < 3 * nat (tris_written s) \<Longrightarrow> uint (pTris (ld_pM s) ! k) < points_written s"
    and "\<And>j. 0 \<le> j \<Longrightarrow> j < pc \<Longrightarrow>
           (point_marked (ld_um s) j \<longleftrightarrow>
            (\<exists>k. k < 3 * nat (tris_written s) \<and> uint (pTris (ld_pM s) ! k) = j))"
    and "\<And>t. t + 1 < nat (tris_written s) \<Longrightarrow> tri_ascending (pTris (ld_pM s)) t"
    and "length (pPoints (ld_pM s)) = nat pc"
  using assms unfolding loader_inv_def by blast+

lemma loader_invI:
  assumes "0 \<le> pc" "pc \<le> LILAC_MESH_MAX_POINTS" "0 \<le> tc" "tc \<le> LILAC_MESH_MAX_TRIS"
    and "usage_map_wf (ld_um s)" "um_point_count (ld_um s) = pc"
    and "point_count (ld_pM s) = pc" "tri_count (ld_pM s) = tc"
    and "length (pTris (ld_pM s)) = 3 * nat tc"
    and "0 \<le> points_written s" "points_written s \<le> pc"
    and "0 \<le> tris_written s" "tris_written s \<le> tc"
    and "length (st s) = 16" "0 \<le> st_count s" "st_count s \<le> 16"
    and "\<And>k. k < nat (st_count s) \<Longrightarrow> uint (st s ! k) \<le> LILAC_MESH_MAX_C"
    and "\<And>k. k < 3 * nat (tris_written s) \<Longrightarrow> uint (pTris (ld_pM s) ! k) < points_written s"
    and "\<And>j. 0 \<le> j \<Longrightarrow> j < pc \<Longrightarrow>
           (point_marked (ld_um s) j \<longleftrightarrow>
            (\<exists>k. k < 3 * nat (tris_written s) \<and> uint (pTris (ld_pM s) ! k) = j))"
    and "\<And>t. t + 1 < nat (tris_written s) \<Longrightarrow> tri_ascending (pTris (ld_pM s)) t"
    and "length (pPoints (ld_pM s)) = nat pc"
  shows "loader_inv pc tc s"
  unfolding loader_inv_def using assms by blast

lemma do_numeric_inv:
  assumes inv: "loader_inv pc tc s" and ok: "ld_status s \<noteq> 0"
    and ok': "ld_status (do_numeric key line s) \<noteq> 0"
  shows "loader_inv pc tc (do_numeric key line s)"
proof -
  define i where "i = parseNumber key"
  note d = loader_invD [OF inv]
  have i0: "\<not> i < 0"
  proof
    assume "i < 0"
    then have "ld_status (do_numeric key line s) = 0"
      unfolding do_numeric_def Let_def i_def [symmetric] loader_fail_def by simp
    with ok' show False by simp
  qed
  have room: "\<not> st_count s \<ge> MAX_SN_STACK"
  proof
    assume "st_count s \<ge> MAX_SN_STACK"
    then have "ld_status (do_numeric key line s) = 0"
      unfolding do_numeric_def Let_def i_def [symmetric] loader_fail_def using i0 ok by simp
    with ok' show False by simp
  qed
  have eq: "do_numeric key line s =
      s\<lparr>st := (st s)[nat (st_count s) := word_of_int i], st_count := st_count s + 1\<rparr>"
    unfolding do_numeric_def Let_def i_def [symmetric] using i0 room ok by simp
  have ir: "0 \<le> i" "i \<le> LILAC_MESH_MAX_C"
    using parseNumber_range [of key] i0 unfolding i_def by auto
  have ui: "uint (word_of_int i :: 16 word) = i"
    using ir unfolding LILAC_MESH_MAX_C_def by (simp add: uint_word_of_int)
  have c: "st_count s < 16" using room unfolding MAX_SN_STACK_def by simp
  have stk: "uint ((st s)[nat (st_count s) := word_of_int i] ! k) \<le> LILAC_MESH_MAX_C"
    if "k < nat (st_count s + 1)" for k
  proof (cases "k = nat (st_count s)")
    case True
    then show ?thesis using d(14,15) c ui ir by simp
  next
    case False
    with that d(15) have "k < nat (st_count s)" by linarith
    with False d(17) [of k] show ?thesis by simp
  qed
  show ?thesis
    unfolding eq
    by (rule loader_invI) (use d c stk in simp_all)
qed

lemma op_p_result:
  assumes "uint nd \<le> LILAC_MESH_MAX_C" "uint na \<le> LILAC_MESH_MAX_C"
    "uint x \<le> LILAC_MESH_MAX_C" "uint y \<le> LILAC_MESH_MAX_C"
    and "0 \<le> pw" "int (length (pPoints pM)) = point_count pM"
  shows "\<exists>r pM' pw' e'. op_p nd na x y pM pw e = Some (r, pM', pw', e') \<and>
           (r \<noteq> 0 \<longrightarrow> pw < point_count pM \<and> pw' = pw + 1 \<and> e' = e \<and>
              pTris pM' = pTris pM \<and> point_count pM' = point_count pM \<and>
              tri_count pM' = tri_count pM \<and> length (pPoints pM') = length (pPoints pM))"
  using assms unfolding op_p_def Let_def by simp

lemma do_p_inv:
  assumes inv: "loader_inv pc tc s" and ok: "ld_status s \<noteq> 0"
  shows "\<exists>s'. do_p line s = Some s' \<and> (ld_status s' \<noteq> 0 \<longrightarrow> loader_inv pc tc s')"
proof (cases "st_count s < 4")
  case True
  then show ?thesis unfolding do_p_def Let_def loader_fail_def by simp
next
  case False
  note d = loader_invD [OF inv]
  have c: "4 \<le> st_count s" using False by simp
  have args: "uint (st s ! nat (st_count s - 4)) \<le> LILAC_MESH_MAX_C"
    "uint (st s ! nat (st_count s - 3)) \<le> LILAC_MESH_MAX_C"
    "uint (st s ! nat (st_count s - 2)) \<le> LILAC_MESH_MAX_C"
    "uint (st s ! nat (st_count s - 1)) \<le> LILAC_MESH_MAX_C"
    using c by (auto intro!: d(17))
  have shape: "int (length (pPoints (ld_pM s))) = point_count (ld_pM s)"
    using d(1,7,21) by simp
  from op_p_result [OF args d(10) shape, of "ld_err s"]
  obtain r pM' pw' e' where
    r: "op_p (st s ! nat (st_count s - 4)) (st s ! nat (st_count s - 3))
          (st s ! nat (st_count s - 2)) (st s ! nat (st_count s - 1))
          (ld_pM s) (points_written s) (ld_err s) = Some (r, pM', pw', e')"
    and succ: "r \<noteq> 0 \<longrightarrow> points_written s < point_count (ld_pM s) \<and> pw' = points_written s + 1 \<and>
          e' = ld_err s \<and> pTris pM' = pTris (ld_pM s) \<and> point_count pM' = point_count (ld_pM s) \<and>
          tri_count pM' = tri_count (ld_pM s) \<and> length (pPoints pM') = length (pPoints (ld_pM s))"
    by blast
  show ?thesis
  proof (cases "r = 0")
    case True
    then show ?thesis unfolding do_p_def Let_def using False ok r by simp
  next
    case nz: False
    define s' where "s' = s\<lparr>ld_pM := pM', points_written := pw', ld_err := e',
        st_count := st_count s - 4\<rparr>"
    have eq: "do_p line s = Some s'"
      unfolding do_p_def Let_def s'_def using False ok r nz by simp
    have stk: "uint (st s ! k) \<le> LILAC_MESH_MAX_C" if "k < nat (st_count s - 4)" for k
      using that by (intro d(17)) simp
    have tr: "uint (pTris (ld_pM s) ! k) < points_written s + 1"
      if "k < 3 * nat (tris_written s)" for k
      using d(18) [OF that] by simp
    have "loader_inv pc tc s'"
      unfolding s'_def
      by (rule loader_invI) (use d c succ nz stk tr in simp_all)
    with eq show ?thesis by simp
  qed
qed

lemma tris_update_nth:
  assumes "3 * T + 2 < length xs"
  shows "(((xs[3 * T := a])[3 * T + 1 := b])[3 * T + 2 := c]) ! k =
         (if k = 3 * T then a else if k = 3 * T + 1 then b
          else if k = 3 * T + 2 then c else xs ! k)"
  using assms by (simp add: nth_list_update)

lemma do_t_inv:
  assumes inv: "loader_inv pc tc s" and ok: "ld_status s \<noteq> 0"
  shows "\<exists>s'. do_t line s = Some s' \<and> (ld_status s' \<noteq> 0 \<longrightarrow> loader_inv pc tc s')"
proof (cases "st_count s < 3")
  case True
  then show ?thesis unfolding do_t_def Let_def loader_fail_def by simp
next
  case False
  note d = loader_invD [OF inv]
  define v1 where "v1 = st s ! nat (st_count s - 3)"
  define v2 where "v2 = st s ! nat (st_count s - 2)"
  define v3 where "v3 = st s ! nat (st_count s - 1)"
  define pM where "pM = ld_pM s"
  define pw where "pw = points_written s"
  define tw where "tw = tris_written s"
  define T where "T = nat tw"
  define um where "um = ld_um s"
  have c: "3 \<le> st_count s" using False by simp
  have args: "uint v1 \<le> LILAC_MESH_MAX_C" "uint v2 \<le> LILAC_MESH_MAX_C"
    "uint v3 \<le> LILAC_MESH_MAX_C"
    unfolding v1_def v2_def v3_def using c by (auto intro!: d(17))
  have pwr: "0 \<le> pw" "pw \<le> LILAC_MESH_MAX_POINTS" "pw \<le> um_point_count um"
    using d unfolding pw_def um_def by simp_all
  have wf: "usage_map_wf um" using d(5) unfolding um_def .
  have mesh: "pw \<le> int (length (pPoints pM))" "0 \<le> tw" "tw \<le> tri_count pM"
    "int (length (pTris pM)) = 3 * tri_count pM"
    using d(1,3,8,9,11,12,13,21) unfolding pw_def pM_def tw_def by simp_all
  note res = op_t_result [OF args pwr(1,2) wf pwr(3) mesh, where e = "ld_err s"]
  show ?thesis
  proof (cases "first_failure (spec_tri_checks v1 v2 v3 pM pw tw um)")
    case (Some code)
    with res obtain um' where
      "op_t v1 v2 v3 pM pw tw um (ld_err s) = Some (0, pM, tw, um', code)" by auto
    then show ?thesis
      unfolding do_t_def Let_def using False ok
      unfolding v1_def v2_def v3_def pM_def pw_def tw_def um_def by simp
  next
    case None
    define tris' where "tris' = (((pTris pM)[3 * T := v1])[3 * T + 1 := v2])[3 * T + 2 := v3]"
    have tw0: "0 \<le> tw" using d(12) unfolding tw_def .
    have nT: "nat (tw * 3) = 3 * T" unfolding T_def using tw0 by (simp add: nat_mult_distrib)
    from None res obtain um' where
      r: "op_t v1 v2 v3 pM pw tw um (ld_err s) =
            Some (1, pM\<lparr>pTris := tris'\<rparr>, tw + 1, um', ld_err s)"
      and wf': "usage_map_wf um'" and cnt': "um_point_count um' = um_point_count um"
      and marks: "\<forall>j\<ge>0. point_marked um' j \<longleftrightarrow>
                   (j = uint v1 \<or> j = uint v2 \<or> j = uint v3 \<or> point_marked um j)"
      unfolding tris'_def nT by auto
    from None have "first_failure (spec_tri_prechecks v1 v2 v3 pM pw tw) = None"
      unfolding spec_tri_checks_def first_failure_append by (simp split: option.splits)
    then have pre: "uint v1 < pw" "uint v2 < pw" "uint v3 < pw" "tw < tri_count pM"
      and srt: "tw > 0 \<longrightarrow> (pTris pM ! nat ((tw - 1) * 3) < v1 \<or>
          (pTris pM ! nat ((tw - 1) * 3) = v1 \<and> pTris pM ! nat ((tw - 1) * 3 + 1) < v2))"
      unfolding prechecks_None by simp_all
    define s' where "s' = s\<lparr>ld_pM := pM\<lparr>pTris := tris'\<rparr>, tris_written := tw + 1,
        ld_um := um', ld_err := ld_err s, st_count := st_count s - 3\<rparr>"
    have eq: "do_t line s = Some s'"
      unfolding do_t_def Let_def s'_def using False ok r
      unfolding v1_def v2_def v3_def pM_def pw_def tw_def um_def by simp
    have Ttc: "T < nat tc" using pre(4) tw0 d(8) unfolding T_def pM_def by simp
    have len: "3 * T + 2 < length (pTris pM)" using Ttc d(9) unfolding pM_def by simp
    have nth: "tris' ! k = (if k = 3 * T then v1 else if k = 3 * T + 1 then v2
          else if k = 3 * T + 2 then v3 else pTris pM ! k)" for k
      unfolding tris'_def by (rule tris_update_nth [OF len])
    have T1: "nat (tw + 1) = T + 1" unfolding T_def using tw0 by simp
    have old: "uint (pTris pM ! k) < pw" if "k < 3 * T" for k
      using d(18) [of k] that unfolding T_def tw_def pM_def pw_def by simp
    have ent: "uint (tris' ! k) < pw" if "k < 3 * (T + 1)" for k
      unfolding nth using pre old [of k] that by auto
    have mk: "point_marked um' j \<longleftrightarrow> (\<exists>k. k < 3 * (T + 1) \<and> uint (tris' ! k) = j)"
      if j: "0 \<le> j" "j < pc" for j
    proof -
      have a: "point_marked um j \<longleftrightarrow> (\<exists>k. k < 3 * T \<and> uint (pTris pM ! k) = j)"
        using d(19) [OF j] unfolding um_def T_def tw_def pM_def .
      have "(\<exists>k. k < 3 * (T + 1) \<and> uint (tris' ! k) = j) \<longleftrightarrow>
            (j = uint v1 \<or> j = uint v2 \<or> j = uint v3 \<or> (\<exists>k. k < 3 * T \<and> uint (pTris pM ! k) = j))"
      proof
        assume "\<exists>k. k < 3 * (T + 1) \<and> uint (tris' ! k) = j"
        then obtain k where k: "k < 3 * (T + 1)" "uint (tris' ! k) = j" by blast
        show "j = uint v1 \<or> j = uint v2 \<or> j = uint v3 \<or> (\<exists>k. k < 3 * T \<and> uint (pTris pM ! k) = j)"
        proof (cases "k < 3 * T")
          case True
          with k(2) have "uint (pTris pM ! k) = j" unfolding nth by simp
          with True show ?thesis by blast
        next
          case False
          with k(1) have "k = 3 * T \<or> k = 3 * T + 1 \<or> k = 3 * T + 2" by arith
          with k(2) show ?thesis unfolding nth by auto
        qed
      next
        assume h: "j = uint v1 \<or> j = uint v2 \<or> j = uint v3 \<or> (\<exists>k. k < 3 * T \<and> uint (pTris pM ! k) = j)"
        have "3 * T < 3 * (T + 1) \<and> uint (tris' ! (3 * T)) = uint v1"
          "3 * T + 1 < 3 * (T + 1) \<and> uint (tris' ! (3 * T + 1)) = uint v2"
          "3 * T + 2 < 3 * (T + 1) \<and> uint (tris' ! (3 * T + 2)) = uint v3"
          unfolding nth by simp_all
        moreover have "\<exists>k. k < 3 * (T + 1) \<and> uint (tris' ! k) = j"
          if "\<exists>k. k < 3 * T \<and> uint (pTris pM ! k) = j"
        proof -
          from that obtain k where k: "k < 3 * T" "uint (pTris pM ! k) = j" by blast
          then have "k < 3 * (T + 1) \<and> uint (tris' ! k) = j" unfolding nth by simp
          then show ?thesis ..
        qed
        ultimately show "\<exists>k. k < 3 * (T + 1) \<and> uint (tris' ! k) = j" using h by metis
      qed
      with marks j(1) a show ?thesis by simp
    qed
    have asc: "tri_ascending tris' t" if t: "t + 1 < T + 1" for t
    proof (cases "t + 1 < T")
      case True
      then have "tri_ascending (pTris pM) t"
        using d(20) [of t] unfolding T_def tw_def pM_def by simp
      moreover have "3 * t < 3 * T" "3 * t + 1 < 3 * T" "3 * (t + 1) < 3 * T" "3 * (t + 1) + 1 < 3 * T"
        using True by simp_all
      ultimately show ?thesis
        unfolding tri_ascending_def tri_v1_def tri_v2_def nth by simp
    next
      case False
      with t have tT: "T = t + 1" by simp
      then have twp: "tw > 0" unfolding T_def by linarith
      have twt: "tw = int t + 1" using tT twp unfolding T_def by linarith
      have i0: "nat ((tw - 1) * 3) = 3 * t" "nat ((tw - 1) * 3 + 1) = 3 * t + 1"
        unfolding twt by simp_all
      from srt twp have "pTris pM ! (3 * t) < v1 \<or>
          (pTris pM ! (3 * t) = v1 \<and> pTris pM ! (3 * t + 1) < v2)"
        unfolding i0 by simp
      then show ?thesis
        unfolding tri_ascending_def tri_v1_def tri_v2_def nth tT by simp
    qed
    have stk: "uint (st s ! k) \<le> LILAC_MESH_MAX_C" if "k < nat (st_count s - 3)" for k
      using that by (intro d(17)) simp
    have twtc: "tw + 1 \<le> tc" using pre(4) d(8) unfolding pM_def by simp
    have "loader_inv pc tc s'"
      unfolding s'_def
    proof (rule loader_invI)
      show "\<And>k. k < 3 * nat (tris_written (s\<lparr>ld_pM := pM\<lparr>pTris := tris'\<rparr>, tris_written := tw + 1,
          ld_um := um', ld_err := ld_err s, st_count := st_count s - 3\<rparr>)) \<Longrightarrow>
          uint (pTris (ld_pM (s\<lparr>ld_pM := pM\<lparr>pTris := tris'\<rparr>, tris_written := tw + 1,
          ld_um := um', ld_err := ld_err s, st_count := st_count s - 3\<rparr>)) ! k)
          < points_written (s\<lparr>ld_pM := pM\<lparr>pTris := tris'\<rparr>, tris_written := tw + 1,
          ld_um := um', ld_err := ld_err s, st_count := st_count s - 3\<rparr>)"
        using ent unfolding pw_def by (simp add: T1)
      show "\<And>j. 0 \<le> j \<Longrightarrow> j < pc \<Longrightarrow>
          point_marked (ld_um (s\<lparr>ld_pM := pM\<lparr>pTris := tris'\<rparr>, tris_written := tw + 1,
          ld_um := um', ld_err := ld_err s, st_count := st_count s - 3\<rparr>)) j =
          (\<exists>k. k < 3 * nat (tris_written (s\<lparr>ld_pM := pM\<lparr>pTris := tris'\<rparr>, tris_written := tw + 1,
          ld_um := um', ld_err := ld_err s, st_count := st_count s - 3\<rparr>)) \<and>
          uint (pTris (ld_pM (s\<lparr>ld_pM := pM\<lparr>pTris := tris'\<rparr>, tris_written := tw + 1,
          ld_um := um', ld_err := ld_err s, st_count := st_count s - 3\<rparr>)) ! k) = j)"
        using mk by (simp add: T1)
      show "\<And>t. t + 1 < nat (tris_written (s\<lparr>ld_pM := pM\<lparr>pTris := tris'\<rparr>, tris_written := tw + 1,
          ld_um := um', ld_err := ld_err s, st_count := st_count s - 3\<rparr>)) \<Longrightarrow>
          tri_ascending (pTris (ld_pM (s\<lparr>ld_pM := pM\<lparr>pTris := tris'\<rparr>, tris_written := tw + 1,
          ld_um := um', ld_err := ld_err s, st_count := st_count s - 3\<rparr>))) t"
        using asc by (simp add: T1)
    qed (use d c wf' cnt' stk twtc tw0 in \<open>simp_all add: pM_def um_def tris'_def\<close>)
    with eq show ?thesis by simp
  qed
qed

lemma do_entity_inv:
  assumes inv: "loader_inv pc tc s" and ok: "ld_status s \<noteq> 0"
  shows "\<exists>s'. do_entity ent line s = Some s' \<and> (ld_status s' \<noteq> 0 \<longrightarrow> loader_inv pc tc s')"
proof (cases ent)
  case (SNENTITY_NUMERIC key)
  then show ?thesis using do_numeric_inv [OF inv ok] by simp
next
  case (SNENTITY_OPERATION key)
  then show ?thesis
    using do_p_inv [OF inv ok, of line] do_t_inv [OF inv ok, of line]
    by (simp add: loader_fail_def)
qed (simp_all add: loader_fail_def)

lemma interpreter_loop_inv:
  "loader_inv pc tc s \<Longrightarrow> ld_status s \<noteq> 0 \<Longrightarrow>
   \<exists>ent' pSn' s'. interpreter_loop ent pSn s = Some (ent', pSn', s') \<and>
      (ld_status s' \<noteq> 0 \<longrightarrow> loader_inv pc tc s' \<and> \<not> status_positive ent')"
proof (induction ent pSn s rule: interpreter_loop.induct)
  case (1 ent pSn s)
  show ?case
  proof (cases "status_positive ent")
    case False
    then show ?thesis
      using "1.prems" by (subst interpreter_loop.simps) simp
  next
    case True
    from do_entity_inv [OF "1.prems", of ent "snparser_count pSn"] obtain s1 where
      s1: "do_entity ent (snparser_count pSn) s = Some s1"
        "ld_status s1 \<noteq> 0 \<longrightarrow> loader_inv pc tc s1" by blast
    show ?thesis
    proof (cases "ld_status s1 = 0")
      case z: True
      then show ?thesis
        using True s1 by (subst interpreter_loop.simps) simp
    next
      case nz: False
      with s1 have inv1: "loader_inv pc tc s1" by simp
      from "1.IH" [OF True s1(1) nz inv1 nz]
      show ?thesis
        using True s1 nz by (subst interpreter_loop.simps) simp
    qed
  qed
qed

lemma end_checks_ok:
  assumes "ld_status (end_checks ent pSn pc tc s) \<noteq> 0"
  shows "end_checks ent pSn pc tc s = s \<and> ld_status s \<noteq> 0 \<and> st_count s \<le> 0 \<and>
         points_written s = pc \<and> tris_written s = tc \<and> usage_map_orphan (ld_um s) = 0"
  using assms unfolding end_checks_def Let_def loader_fail_def
  by (cases ent) (simp_all split: if_splits)

lemma lilac_mesh_new_success:
  assumes "lilac_mesh_new pIn = Some (Some pM, e, l)"
  shows "\<exists>s. loader_inv (point_count pM) (tri_count pM) s \<and> pM = ld_pM s \<and>
           points_written s = point_count pM \<and> tris_written s = tri_count pM \<and>
           usage_map_orphan (ld_um s) = 0"
proof -
  obtain pc tc pSn where h: "readHeader (snparser_alloc pIn) = Inr (pc, tc, pSn)"
  proof (cases "readHeader (snparser_alloc pIn)")
    case (Inl a)
    with assms have False unfolding lilac_mesh_new_def Let_def by (simp split: prod.splits)
    then show ?thesis ..
  next
    case (Inr b)
    with that show ?thesis by (cases b) auto
  qed
  note new1 = assms [unfolded lilac_mesh_new_def Let_def h sum.case prod.case]
  obtain um where um: "usage_map_dim usage_map_init pc = Some um"
    using new1 by (cases "usage_map_dim usage_map_init pc") simp_all
  note new2 = new1 [unfolded um option.case]
  obtain ent pSn' s where
    lp: "interpreter_loop (fst (snparser_read pSn)) (snd (snparser_read pSn))
               (loader_init pc tc um) = Some (ent, pSn', s)"
    using new2
    by (cases "interpreter_loop (fst (snparser_read pSn)) (snd (snparser_read pSn))
               (loader_init pc tc um)") auto
  note new3 = new2 [unfolded lp option.case prod.case]
  have fin: "ld_status (end_checks ent pSn' pc tc s) \<noteq> 0"
      "pM = ld_pM (end_checks ent pSn' pc tc s)"
    using new3 by (simp_all split: if_splits)
  note r = readHeader_range [OF h]
  have inv0: "loader_inv pc tc (loader_init pc tc um)"
    using r um by (intro loader_init_inv) simp_all
  have ok0: "ld_status (loader_init pc tc um) \<noteq> 0" by (simp add: loader_init_def)
  from interpreter_loop_inv [OF inv0 ok0, of "fst (snparser_read pSn)" "snd (snparser_read pSn)"] lp
  have inv: "ld_status s \<noteq> 0 \<longrightarrow> loader_inv pc tc s" by auto
  note ec = end_checks_ok [OF fin(1)]
  from ec inv have i: "loader_inv pc tc s" by simp
  note d = loader_invD [OF i]
  have "pM = ld_pM s" using fin(2) ec by simp
  with i d(7,8) ec show ?thesis by auto
qed

lemma lilac_mesh_new_total: "lilac_mesh_new pIn \<noteq> None"
proof (cases "readHeader (snparser_alloc pIn)")
  case (Inl a)
  then show ?thesis unfolding lilac_mesh_new_def Let_def by (simp split: prod.splits)
next
  case (Inr b)
  obtain pc tc pSn where b: "b = (pc, tc, pSn)" by (cases b) auto
  note r = readHeader_range [OF Inr [unfolded b]]
  from usage_map_dim_Some [of pc usage_map_init] r obtain um where
    um: "usage_map_dim usage_map_init pc = Some um" by auto
  have inv0: "loader_inv pc tc (loader_init pc tc um)"
    using r um by (intro loader_init_inv) simp_all
  have ok0: "ld_status (loader_init pc tc um) \<noteq> 0" by (simp add: loader_init_def)
  from interpreter_loop_inv [OF inv0 ok0, of "fst (snparser_read pSn)" "snd (snparser_read pSn)"]
  obtain ent pSn' s where "interpreter_loop (fst (snparser_read pSn)) (snd (snparser_read pSn))
               (loader_init pc tc um) = Some (ent, pSn', s)" by blast
  then show ?thesis
    unfolding lilac_mesh_new_def Let_def using Inr b um by simp
qed

text \<open>
  Claim C1.  Whenever \<open>lilac_mesh_new\<close> returns a mesh, its triangle array holds
  \<open>tri_count\<close> triangles and the point indices appearing in it are exactly the
  indices in \<open>[0, point_count)\<close>: every index in a triangle is below
  \<open>point_count\<close>, and every index below \<open>point_count\<close> occurs in some triangle.
\<close>

theorem lilac_mesh_new_no_orphans:
  assumes "lilac_mesh_new pIn = Some (Some pM, e, l)"
  shows "length (pTris pM) = 3 * nat (tri_count pM) \<and>
         uint ` set (pTris pM) = {i. 0 \<le> i \<and> i < point_count pM}"
proof -
  from lilac_mesh_new_success [OF assms] obtain s where
    s: "loader_inv (point_count pM) (tri_count pM) s" "pM = ld_pM s"
      "points_written s = point_count pM" "tris_written s = tri_count pM"
      "usage_map_orphan (ld_um s) = 0" by blast
  note d = loader_invD [OF s(1)]
  have len: "length (pTris pM) = 3 * nat (tri_count pM)" using d(9) s(2) by simp
  have sub: "uint v \<in> {i. 0 \<le> i \<and> i < point_count pM}" if "v \<in> set (pTris pM)" for v
  proof -
    from that obtain k where k: "k < length (pTris pM)" "pTris pM ! k = v"
      unfolding in_set_conv_nth by blast
    then have "uint (pTris (ld_pM s) ! k) < points_written s"
      using len s(2,4) by (intro d(18)) simp
    with k s(2,3) show ?thesis by simp
  qed
  have sup: "j \<in> uint ` set (pTris pM)" if "j \<in> {i. 0 \<le> i \<and> i < point_count pM}" for j
  proof -
    from that have j: "0 \<le> j" "j < point_count pM" by simp_all
    have "\<not> (\<exists>i. 0 \<le> i \<and> i < um_point_count (ld_um s) \<and> \<not> point_marked (ld_um s) i)"
      using usage_map_orphan_iff [of "ld_um s"] d(1,6) s(5) by simp
    with j d(6) have "point_marked (ld_um s) j" by auto
    with d(19) [OF j] obtain k where
      k: "k < 3 * nat (tris_written s)" "uint (pTris (ld_pM s) ! k) = j" by blast
    then have "pTris pM ! k \<in> set (pTris pM)"
      using len s(2,4) by (intro nth_mem) simp
    with k(2) s(2) show ?thesis by force
  qed
  from sub sup have "uint ` set (pTris pM) = {i. 0 \<le> i \<and> i < point_count pM}" by blast
  with len show ?thesis by simp
qed

text \<open>
  Claim C3.  Whenever \<open>lilac_mesh_new\<close> returns a mesh, each triangle of its triangle
  array is strictly below its successor in the lexicographic order on \<open>(v1, v2)\<close>.
\<close>

theorem lilac_mesh_new_sorted:
  assumes "lilac_mesh_new pIn = Some (Some pM, e, l)"
  shows "\<forall>i. i + 1 < nat (tri_count pM) \<longrightarrow>
           (tri_v1 (pTris pM) i < tri_v1 (pTris pM) (i + 1) \<or>
            (tri_v1 (pTris pM) i = tri_v1 (pTris pM) (i + 1) \<and>
             tri_v2 (pTris pM) i < tri_v2 (pTris pM) (i + 1)))"
proof -
  from lilac_mesh_new_success [OF assms] obtain s where
    s: "loader_inv (point_count pM) (tri_count pM) s" "pM = ld_pM s"
      "tris_written s = tri_count pM" by blast
  note d = loader_invD [OF s(1)]
  show ?thesis
    using d(20) s(2,3) unfolding tri_ascending_def by simp
qed

lemma op_t_checks_pass:
  assumes "op_t_checks v1 v2 v3 pM pw tw e = Some (r, e')" "r \<noteq> 0"
  shows "uint v1 < pw \<and> uint v2 < pw \<and> uint v3 < pw \<and> v1 \<noteq> v2 \<and> v2 \<noteq> v3 \<and> v1 \<noteq> v3"
  using assms unfolding op_t_checks_def Let_def
  by (auto split: if_splits option.splits prod.splits)

text \<open>
  Claim C10.  The loader never reaches an \<open>abort()\<close>.  In every state the
  interpreter loop reaches from the state set up after a successful header, the number
  of points written is at most the point count the usage map was dimensioned with,
  and a triangle that passes the checks preceding the usage map (the only place where
  \<open>usage_map_edge\<close> and \<open>usage_map_point\<close> are called) has its three vertex indices
  in \<open>[0, point_count)\<close> and pairwise distinct; the triangle operation and the loop
  body then return without aborting.
\<close>

theorem loader_usage_map_calls_in_range:
  "lilac_mesh_new pIn \<noteq> None \<and>
   (readHeader (snparser_alloc pIn) = Inr (pcount, tcount, pSn) \<and>
    usage_map_dim usage_map_init pcount = Some um \<and>
    interpreter_loop ent0 pSn0 (loader_init pcount tcount um) = Some (ent, pSn', s) \<and>
    ld_status s \<noteq> 0 \<and>
    op_t_checks v1 v2 v3 (ld_pM s) (points_written s) (tris_written s) e = Some (r, e') \<and>
    r \<noteq> 0
    \<longrightarrow>
      points_written s \<le> point_count (ld_pM s) \<and>
      um_point_count (ld_um s) = point_count (ld_pM s) \<and>
      0 \<le> uint v1 \<and> uint v1 < um_point_count (ld_um s) \<and>
      0 \<le> uint v2 \<and> uint v2 < um_point_count (ld_um s) \<and>
      0 \<le> uint v3 \<and> uint v3 < um_point_count (ld_um s) \<and>
      uint v1 \<noteq> uint v2 \<and> uint v2 \<noteq> uint v3 \<and> uint v3 \<noteq> uint v1 \<and>
      op_t v1 v2 v3 (ld_pM s) (points_written s) (tris_written s) (ld_um s) e \<noteq> None \<and>
      (\<forall>ent1 line. do_entity ent1 line s \<noteq> None))"
proof (rule conjI [OF lilac_mesh_new_total], rule impI, (erule conjE)+)
  assume h: "readHeader (snparser_alloc pIn) = Inr (pcount, tcount, pSn)"
    and um: "usage_map_dim usage_map_init pcount = Some um"
    and lp: "interpreter_loop ent0 pSn0 (loader_init pcount tcount um) = Some (ent, pSn', s)"
    and ok: "ld_status s \<noteq> 0"
    and chk: "op_t_checks v1 v2 v3 (ld_pM s) (points_written s) (tris_written s) e = Some (r, e')"
    and r: "r \<noteq> 0"
  note rg = readHeader_range [OF h]
  have inv0: "loader_inv pcount tcount (loader_init pcount tcount um)"
    using rg um by (intro loader_init_inv) simp_all
  have ok0: "ld_status (loader_init pcount tcount um) \<noteq> 0" by (simp add: loader_init_def)
  from interpreter_loop_inv [OF inv0 ok0, of ent0 pSn0] lp ok
  have inv: "loader_inv pcount tcount s" by auto
  note d = loader_invD [OF inv]
  note p = op_t_checks_pass [OF chk r]
  have le: "points_written s \<le> um_point_count (ld_um s)" using d(6,11) by simp
  have par: "uint v1 \<le> LILAC_MESH_MAX_C" "uint v2 \<le> LILAC_MESH_MAX_C"
    "uint v3 \<le> LILAC_MESH_MAX_C" "points_written s \<le> LILAC_MESH_MAX_POINTS"
    using p d(2,11) unfolding LILAC_MESH_MAX_C_def LILAC_MESH_MAX_POINTS_def by simp_all
  have mesh: "points_written s \<le> int (length (pPoints (ld_pM s)))" "0 \<le> tris_written s"
    "tris_written s \<le> tri_count (ld_pM s)"
    "int (length (pTris (ld_pM s))) = 3 * tri_count (ld_pM s)"
    using d(1,3,8,9,11,12,13,21) by simp_all
  have na: "op_t v1 v2 v3 (ld_pM s) (points_written s) (tris_written s) (ld_um s) e \<noteq> None"
    using op_t_result [OF par(1,2,3) d(10) par(4) d(5) le mesh, where e = e]
    by (cases "first_failure (spec_tri_checks v1 v2 v3 (ld_pM s) (points_written s)
          (tris_written s) (ld_um s))") auto
  have ne: "do_entity ent1 line s \<noteq> None" for ent1 line
    using do_entity_inv [OF inv ok, of ent1 line] by auto
  have dist: "uint v1 \<noteq> uint v2" "uint v2 \<noteq> uint v3" "uint v3 \<noteq> uint v1"
    using p by (simp_all add: word_uint_eq_iff)
  show "points_written s \<le> point_count (ld_pM s) \<and>
      um_point_count (ld_um s) = point_count (ld_pM s) \<and>
      0 \<le> uint v1 \<and> uint v1 < um_point_count (ld_um s) \<and>
      0 \<le> uint v2 \<and> uint v2 < um_point_count (ld_um s) \<and>
      0 \<le> uint v3 \<and> uint v3 < um_point_count (ld_um s) \<and>
      uint v1 \<noteq> uint v2 \<and> uint v2 \<noteq> uint v3 \<and> uint v3 \<noteq> uint v1 \<and>
      op_t v1 v2 v3 (ld_pM s) (points_written s) (tris_written s) (ld_um s) e \<noteq> None \<and>
      (\<forall>ent1 line. do_entity ent1 line s \<noteq> None)"
    using d(6,7,11) p le na ne dist by simp
qed

lemma quad_loads: "lilac_mesh_new quad_input = Some (Some quad_mesh, 0, 0)"
  by code_simp

theorem lilac_mesh_new_no_orphans_witness:
  "lilac_mesh_new quad_input = Some (Some quad_mesh, 0, 0) \<and>
   length (pTris quad_mesh) = 3 * nat (tri_count quad_mesh) \<and>
   uint ` set (pTris quad_mesh) = {i. 0 \<le> i \<and> i < point_count quad_mesh}"
  using lilac_mesh_new_no_orphans [OF quad_loads] quad_loads by simp

theorem lilac_mesh_new_sorted_witness:
  "lilac_mesh_new quad_input = Some (Some quad_mesh, 0, 0) \<and>
   (tri_v1 (pTris quad_mesh) 0 = tri_v1 (pTris quad_mesh) (0 + 1) \<and>
    tri_v2 (pTris quad_mesh) 0 < tri_v2 (pTris quad_mesh) (0 + 1))"
proof -
  have a: "(0::nat) + 1 < nat (tri_count quad_mesh)" by (simp add: quad_mesh_def)
  have b: "\<not> tri_v1 (pTris quad_mesh) 0 < tri_v1 (pTris quad_mesh) (0 + 1)"
    by (simp add: quad_mesh_def tri_v1_def)
  from lilac_mesh_new_sorted [OF quad_loads, THEN spec, THEN mp, OF a] b
  show ?thesis using quad_loads by blast
qed

lemma quad_header:
  "readHeader (snparser_alloc quad_input) = Inr (4, 2, \<lparr>sn_rest = drop 8 quad_input, sn_count = 2\<rparr>)"
  by code_simp

lemma quad_dim: "usage_map_dim usage_map_init 4 = Some quad_um"
  by code_simp

lemma quad_points_run:
  "interpreter_loop (SNENTITY_NUMERIC ''0'') quad_points_parser (loader_init 4 2 quad_um)
     = Some (SNENTITY_EOF, \<lparr>sn_rest = [], sn_count = 6\<rparr>, quad_points_state)"
  by code_simp

lemma quad_points_ok: "ld_status quad_points_state \<noteq> 0"
  by code_simp

lemma quad_points_checks:
  "op_t_checks 0 1 2 (ld_pM quad_points_state) (points_written quad_points_state)
     (tris_written quad_points_state) 0 = Some (1, 0)"
  by code_simp

theorem loader_usage_map_calls_in_range_witness:
  "lilac_mesh_new quad_input \<noteq> None \<and>
   ld_status quad_points_state \<noteq> 0 \<and>
   points_written quad_points_state \<le> point_count (ld_pM quad_points_state) \<and>
   uint (0 :: 16 word) < um_point_count (ld_um quad_points_state) \<and>
   uint (1 :: 16 word) < um_point_count (ld_um quad_points_state) \<and>
   uint (2 :: 16 word) < um_point_count (ld_um quad_points_state) \<and>
   op_t 0 1 2 (ld_pM quad_points_state) (points_written quad_points_state)
     (tris_written quad_points_state) (ld_um quad_points_state) 0 \<noteq> None"
proof -
  have one: "(1::int) \<noteq> 0" by simp
  from loader_usage_map_calls_in_range [of quad_input 4 2 "\<lparr>sn_rest = drop 8 quad_input, sn_count = 2\<rparr>"
      quad_um "SNENTITY_NUMERIC ''0''" quad_points_parser SNENTITY_EOF
      "\<lparr>sn_rest = [], sn_count = 6\<rparr>" quad_points_state 0 1 2 0 1 0]
    quad_header quad_dim quad_points_run quad_points_ok quad_points_checks one
  show ?thesis by blast
qed

subsection \<open>The rasterizer\<close>

lemma color_channel_range: "1 \<le> color_channel f \<and> color_channel f \<le> 255"
  unfolding color_channel_def Let_def
  by (auto simp add: not_less word_le_def word_less_def)

lemma byte_take_bit:
  fixes w :: "32 word"
  assumes "w \<le> 255"
  shows "take_bit 8 w = w"
proof -
  have "w < 2 ^ 8" using assms by (simp add: word_less_def word_le_def)
  then have "w AND mask 8 = w" by (rule less_mask_eq)
  then show ?thesis by (simp add: take_bit_eq_mask)
qed

lemma pack_channels:
  fixes r g b :: "32 word"
  assumes "r \<le> 255" "g \<le> 255" "b \<le> 255"
  shows "argb_alpha (0xff000000 OR (push_bit 16 r) OR (push_bit 8 g) OR b) = 0xff"
    and "argb_red (0xff000000 OR (push_bit 16 r) OR (push_bit 8 g) OR b) = r"
    and "argb_green (0xff000000 OR (push_bit 16 r) OR (push_bit 8 g) OR b) = g"
    and "argb_blue (0xff000000 OR (push_bit 16 r) OR (push_bit 8 g) OR b) = b"
proof -
  define r' g' b' where "r' = take_bit 8 r" and "g' = take_bit 8 g" and "b' = take_bit 8 b"
  have e: "r = take_bit 8 r'" "g = take_bit 8 g'" "b = take_bit 8 b'"
    unfolding r'_def g'_def b'_def using assms by (simp_all add: byte_take_bit)
  have ff: "(0xff000000 :: 32 word) = push_bit 24 (mask 8)" "(0xff :: 32 word) = mask 8"
    by (simp_all add: mask_eq_exp_minus_1)
  show "argb_alpha (0xff000000 OR (push_bit 16 r) OR (push_bit 8 g) OR b) = 0xff"
    unfolding argb_alpha_def ff e
    by (rule bit_eqI) (auto simp add: bit_simps)
  show "argb_red (0xff000000 OR (push_bit 16 r) OR (push_bit 8 g) OR b) = r"
    unfolding argb_red_def ff e
    by (rule bit_eqI) (auto simp add: bit_simps)
  show "argb_green (0xff000000 OR (push_bit 16 r) OR (push_bit 8 g) OR b) = g"
    unfolding argb_green_def ff e
    by (rule bit_eqI) (auto simp add: bit_simps)
  show "argb_blue (0xff000000 OR (push_bit 16 r) OR (push_bit 8 g) OR b) = b"
    unfolding argb_blue_def ff e
    by (rule bit_eqI) (auto simp add: bit_simps)
qed

lemma argb_blue_sentinel: "argb_blue mask_sentinel = 0"
  by (simp add: argb_blue_def mask_sentinel_def)

lemma vertexColor_channels:
  assumes "vertexColor s pv = Some c"
  shows "argb_alpha c = 0xff \<and>
         1 \<le> argb_red c \<and> argb_red c \<le> 255 \<and>
         1 \<le> argb_green c \<and> argb_green c \<le> 255 \<and>
         1 \<le> argb_blue c \<and> argb_blue c \<le> 255"
proof -
  from assms obtain r g b where
    c: "c = 0xff000000 OR (push_bit 16 r) OR (push_bit 8 g) OR b"
    and r: "1 \<le> r \<and> r \<le> 255" and g: "1 \<le> g \<and> g \<le> 255" and b: "1 \<le> b \<and> b \<le> 255"
    unfolding vertexColor_def Let_def
    using color_channel_range
    by (auto split: if_splits)
  from r g b have le: "r \<le> 255" "g \<le> 255" "b \<le> 255" by simp_all
  show ?thesis
    unfolding c pack_channels [OF le] using r g b by simp
qed

lemma vertexColor_not_sentinel:
  assumes "vertexColor s pv = Some c"
  shows "c \<noteq> mask_sentinel"
proof
  assume "c = mask_sentinel"
  then have "argb_blue c = 0" by (simp add: argb_blue_sentinel)
  moreover have "1 \<le> argb_blue c" using vertexColor_channels [OF assms] by simp
  ultimately show False by simp
qed

lemma renderSpan_loop_mask:
  "renderSpan_loop s iv x x_max ps buf = Some buf' \<Longrightarrow>
   length buf' = length buf \<and>
   (\<forall>i<length buf. buf' ! i = mask_sentinel \<longleftrightarrow> buf ! i = mask_sentinel)"
proof (induction s iv x x_max ps buf rule: renderSpan_loop.induct)
  case (1 s iv x x_max ps buf)
  note run = "1.prems" [unfolded renderSpan_loop.simps [of s iv x x_max ps buf]]
  show ?case
  proof (cases "x \<le> x_max")
    case False
    with run show ?thesis by simp
  next
    case True
    with run have inr: "\<not> (ps < 0 \<or> ps \<ge> int (length buf))"
      by (simp split: if_splits)
    show ?thesis
    proof (cases "buf ! nat ps = mask_sentinel")
      case m: True
      from run True inr m obtain x' where
        x': "iinc x = Some x'" "renderSpan_loop s iv x' x_max (ps + 1) buf = Some buf'"
        by (simp split: option.splits)
      from "1.IH"(1) [OF True inr m x'(1) x'(2)] show ?thesis .
    next
      case m: False
      from run True inr m obtain vx c x' where
        st: "ivec_atX iv (real_of_int x + 1 / 2) = Some vx" "vertexColor s vx = Some c"
          "iinc x = Some x'"
          "renderSpan_loop s iv x' x_max (ps + 1) (buf[nat ps := c]) = Some buf'"
        by (simp split: option.splits)
      from "1.IH"(2) [OF True inr m st(1) st(2) st(3) st(4)]
      have ih: "length buf' = length (buf[nat ps := c])"
        "\<forall>i<length (buf[nat ps := c]). buf' ! i = mask_sentinel \<longleftrightarrow>
            (buf[nat ps := c]) ! i = mask_sentinel" by simp_all
      have c: "c \<noteq> mask_sentinel" using st(2) by (rule vertexColor_not_sentinel)
      have "(buf[nat ps := c]) ! i = mask_sentinel \<longleftrightarrow> buf ! i = mask_sentinel"
        if "i < length buf" for i
        using that c m by (cases "i = nat ps") simp_all
      with ih show ?thesis by simp
    qed
  qed
qed

lemma renderSpan_mask:
  assumes run: "renderSpan s v1 v2 = Some s'" and buf: "pBuf s = Some buf"
  shows "\<exists>buf'. pBuf s' = Some buf' \<and> length buf' = length buf \<and>
           (\<forall>i<length buf. buf' ! i = mask_sentinel \<longleftrightarrow> buf ! i = mask_sentinel)"
proof -
  note d0 = run [unfolded renderSpan_def buf option.case Let_def]
  have c1: "\<not> (\<not> checkVertex s v1 \<or> \<not> checkVertex s v2)"
  proof
    assume "\<not> checkVertex s v1 \<or> \<not> checkVertex s v2"
    with d0 show False by simp
  qed
  note d1 = d0 [unfolded if_not_P [OF c1]]
  have c2: "\<not> vtx_y v1 \<noteq> vtx_y v2"
  proof
    assume "vtx_y v1 \<noteq> vtx_y v2"
    with d1 show False by simp
  qed
  note d2 = d1 [unfolded if_not_P [OF c2]]
  obtain a b where ab: "(if \<not> vtx_x v1 \<le> vtx_x v2 then (v2, v1) else (v1, v2)) = (a, b)"
    by (cases "if \<not> vtx_x v1 \<le> vtx_x v2 then (v2, v1) else (v1, v2)") blast
  note d3 = d2 [unfolded ab prod.case]
  obtain y where y: "ifloor (vtx_y a) = Some y"
    using d3 by (cases "ifloor (vtx_y a)") simp_all
  note d4 = d3 [unfolded y option.case]
  obtain xa where xa: "ifloor (vtx_x a) = Some xa"
    using d4 by (cases "ifloor (vtx_x a)") simp_all
  note d5 = d4 [unfolded xa option.case]
  obtain xb where xb: "ifloor (vtx_x b) = Some xb"
    using d5 by (cases "ifloor (vtx_x b)") simp_all
  note d6 = d5 [unfolded xb option.case]
  obtain x_min where x_min:
    "(if 1 / 2 < vtx_x a - real_of_int xa then iinc xa else Some xa) = Some x_min"
    using d6 by (cases "if 1 / 2 < vtx_x a - real_of_int xa then iinc xa else Some xa") simp_all
  note d7 = d6 [unfolded x_min option.case]
  obtain x_max where x_max:
    "(if vtx_x b - real_of_int xb \<le> 1 / 2 then idec xb else Some xb) = Some x_max"
    using d7 by (cases "if vtx_x b - real_of_int xb \<le> 1 / 2 then idec xb else Some xb") simp_all
  note d8 = d7 [unfolded x_max option.case]
  show ?thesis
  proof (cases "x_max < x_min \<or> (y < 0 \<or> m_h s \<le> y) \<or> (x_max < 0 \<or> m_w s \<le> x_min)")
    case True
    with d8 have "s' = s" by (auto split: if_split_asm)
    with buf show ?thesis by simp
  next
    case False
    then have f: "\<not> x_max < x_min" "\<not> (y < 0 \<or> m_h s \<le> y)" "\<not> (x_max < 0 \<or> m_w s \<le> x_min)"
      by simp_all
    note d9 = d8 [unfolded if_not_P [OF f(1)] if_not_P [OF f(2)] if_not_P [OF f(3)]]
    obtain iv where iv: "ivec_init s a b = Some iv"
      using d9 by (cases "ivec_init s a b") simp_all
    note d10 = d9 [unfolded iv option.case]
    define xl where "xl = (if x_min < 0 then 0 else x_min)"
    define xr where "xr = (if m_w s \<le> x_max then m_w s - 1 else x_max)"
    note d11 = d10 [folded xl_def xr_def]
    obtain buf' where l: "renderSpan_loop s iv xl xr (y * m_w s + xl) buf = Some buf'"
      using d11 by (cases "renderSpan_loop s iv xl xr (y * m_w s + xl) buf") simp_all
    from d11 l have "s' = s\<lparr>pBuf := Some buf'\<rparr>" by simp
    with renderSpan_loop_mask [OF l] show ?thesis by simp
  qed
qed

lemma renderSpans_mask:
  "renderSpans s spans = Some s' \<Longrightarrow> pBuf s = Some buf \<Longrightarrow>
   \<exists>buf'. pBuf s' = Some buf' \<and> length buf' = length buf \<and>
     (\<forall>i<length buf. buf' ! i = mask_sentinel \<longleftrightarrow> buf ! i = mask_sentinel)"
proof (induction spans arbitrary: s buf)
  case Nil
  then show ?case by simp
next
  case (Cons sp spans)
  obtain v1 v2 where sp: "sp = (v1, v2)" by (cases sp)
  from Cons.prems(1) obtain s1 where
    s1: "renderSpan s v1 v2 = Some s1" "renderSpans s1 spans = Some s'"
    unfolding sp by (simp split: option.splits)
  from renderSpan_mask [OF s1(1) Cons.prems(2)] obtain buf1 where
    b1: "pBuf s1 = Some buf1" "length buf1 = length buf"
      "\<forall>i<length buf. buf1 ! i = mask_sentinel \<longleftrightarrow> buf ! i = mask_sentinel" by blast
  from Cons.IH [OF s1(2) b1(1)] obtain buf' where
    b': "pBuf s' = Some buf'" "length buf' = length buf1"
      "\<forall>i<length buf1. buf' ! i = mask_sentinel \<longleftrightarrow> buf1 ! i = mask_sentinel" by blast
  from b1 b' show ?case by simp
qed

text \<open>
  Claim C4.  Rendering preserves the mask: after any sequence of \<open>renderSpan\<close> calls
  that the program survives, the buffer has its length unchanged and a pixel holds the
  sentinel \<open>0xFF000000\<close> exactly when it held it before; the same holds of the pixel
  loop of a single call.  \<open>vertexColor\<close> returns a colour with alpha \<open>0xFF\<close> and
  each of its red, green and blue channels in \<open>[1, 255]\<close>, hence never the sentinel.
\<close>

theorem renderSpan_preserves_mask:
  "(renderSpans s spans = Some s' \<and> pBuf s = Some buf \<longrightarrow>
      (\<exists>buf'. pBuf s' = Some buf' \<and> length buf' = length buf \<and>
         (\<forall>i<length buf. buf' ! i = mask_sentinel \<longleftrightarrow> buf ! i = mask_sentinel))) \<and>
   (\<forall>x x_max ps buf'. renderSpan_loop s iv x x_max ps buf = Some buf' \<longrightarrow>
      length buf' = length buf \<and>
      (\<forall>i<length buf. buf' ! i = mask_sentinel \<longleftrightarrow> buf ! i = mask_sentinel)) \<and>
   (vertexColor s pv = Some c \<longrightarrow>
      argb_alpha c = 0xff \<and>
      1 \<le> argb_red c \<and> argb_red c \<le> 255 \<and>
      1 \<le> argb_green c \<and> argb_green c \<le> 255 \<and>
      1 \<le> argb_blue c \<and> argb_blue c \<le> 255 \<and> c \<noteq> mask_sentinel)"
proof (intro conjI impI allI)
  assume "renderSpans s spans = Some s' \<and> pBuf s = Some buf"
  then show "\<exists>buf'. pBuf s' = Some buf' \<and> length buf' = length buf \<and>
         (\<forall>i<length buf. buf' ! i = mask_sentinel \<longleftrightarrow> buf ! i = mask_sentinel)"
    using renderSpans_mask by blast
qed (use renderSpan_loop_mask vertexColor_channels vertexColor_not_sentinel in blast)+

lemma span_run:
  "renderSpans span_state [(span_left, span_right)] =
     Some (span_state\<lparr>pBuf := Some [0xff808080, 0xff000000, 0xff808080, 0]\<rparr>)"
  by (simp add: span_state_def span_left_def span_right_def renderSpan_def
        renderSpan_loop.simps ifloor_def iinc_def idec_def checkVertex_def ivec_init_def
        ivec_atX_def ivec_compute_def vertexColor_def color_channel_def zero_vertex_def
        mask_sentinel_def INTER_SCALAR_def INTER_VECTOR_def IMODE_SCALAR_def IVEC_THETA_def
        INT32_MAX_def INT32_MIN_def Let_def)

theorem renderSpan_preserves_mask_witness:
  "renderSpans span_state [(span_left, span_right)] =
     Some (span_state\<lparr>pBuf := Some [0xff808080, 0xff000000, 0xff808080, 0]\<rparr>) \<and>
   (\<exists>buf'. pBuf (span_state\<lparr>pBuf := Some [0xff808080, 0xff000000, 0xff808080, 0]\<rparr>) = Some buf' \<and>
      length buf' = length [0, 0xff000000, 0, 0 :: 32 word] \<and>
      (\<forall>i<length [0, 0xff000000, 0, 0 :: 32 word].
          buf' ! i = mask_sentinel \<longleftrightarrow> [0, 0xff000000, 0, 0 :: 32 word] ! i = mask_sentinel))"
proof -
  have b: "pBuf span_state = Some [0, 0xff000000, 0, 0]" by (simp add: span_state_def)
  from renderSpan_preserves_mask [of span_state "[(span_left, span_right)]"
      "span_state\<lparr>pBuf := Some [0xff808080, 0xff000000, 0xff808080, 0]\<rparr>"
      "[0, 0xff000000, 0, 0]"] span_run b
  show ?thesis by blast
qed

lemma slerp_angle_sin:
  assumes "a \<ge> MIN_SLERP_ANGLE" "a \<le> MAX_SLERP_ANGLE"
  shows "sin a \<noteq> 0"
proof -
  have "0 < pi / 1024" by simp
  with assms have "0 < a" "a < pi"
    unfolding MIN_SLERP_ANGLE_def MAX_SLERP_ANGLE_def by linarith+
  then have "0 < sin a" by (rule sin_gt_zero)
  then show ?thesis by simp
qed

lemma imodes_distinct:
  "IMODE_SCALAR \<noteq> IMODE_VLINEAR" "IMODE_SCALAR \<noteq> IMODE_SLERP" "IMODE_SCALAR \<noteq> IMODE_DOUBLE"
  "IMODE_VLINEAR \<noteq> IMODE_SLERP" "IMODE_VLINEAR \<noteq> IMODE_DOUBLE" "IMODE_SLERP \<noteq> IMODE_DOUBLE"
  "IMODE_VLINEAR \<noteq> IMODE_SCALAR" "IMODE_SLERP \<noteq> IMODE_SCALAR" "IMODE_DOUBLE \<noteq> IMODE_SCALAR"
  "IMODE_SLERP \<noteq> IMODE_VLINEAR" "IMODE_DOUBLE \<noteq> IMODE_VLINEAR" "IMODE_DOUBLE \<noteq> IMODE_SLERP"
  by (simp_all add: IMODE_SCALAR_def IMODE_VLINEAR_def IMODE_SLERP_def IMODE_DOUBLE_def)

lemma compute_scalar:
  assumes "iv_mode iv = IMODE_SCALAR" "- 1 \<le> vtx_v (iv_v1 iv)" "vtx_v (iv_v1 iv) \<le> 1"
    "- 1 \<le> vtx_v (iv_v2 iv)" "vtx_v (iv_v2 iv) \<le> 1"
  shows "\<exists>r0 r1. ivec_compute iv 0 = Some r0 \<and> ivec_compute iv 1 = Some r1 \<and>
           vtx_x r0 = vtx_x (iv_v1 iv) \<and> vtx_y r0 = vtx_y (iv_v1 iv) \<and> vtx_v r0 = vtx_v (iv_v1 iv) \<and>
           vtx_x r1 = vtx_x (iv_v2 iv) \<and> vtx_y r1 = vtx_y (iv_v2 iv) \<and> vtx_v r1 = vtx_v (iv_v2 iv)"
  using assms unfolding ivec_compute_def Let_def zero_vertex_def by simp

lemma compute_vlinear:
  assumes "iv_mode iv = IMODE_VLINEAR"
  shows "\<exists>r0 r1. ivec_compute iv 0 = Some r0 \<and> ivec_compute iv 1 = Some r1 \<and>
           vtx_x r0 = vtx_x (iv_v1 iv) \<and> vtx_y r0 = vtx_y (iv_v1 iv) \<and>
           vtx_vx r0 = vtx_vx (iv_v1 iv) \<and> vtx_vy r0 = vtx_vy (iv_v1 iv) \<and>
           vtx_vz r0 = vtx_vz (iv_v1 iv) \<and>
           vtx_x r1 = vtx_x (iv_v2 iv) \<and> vtx_y r1 = vtx_y (iv_v2 iv) \<and>
           vtx_vx r1 = vtx_vx (iv_v2 iv) \<and> vtx_vy r1 = vtx_vy (iv_v2 iv) \<and>
           vtx_vz r1 = vtx_vz (iv_v2 iv)"
  using assms unfolding ivec_compute_def Let_def zero_vertex_def
  by (simp add: imodes_distinct)

lemma compute_slerp:
  assumes "iv_mode iv = IMODE_SLERP" "iv_denom iv = sin (iv_angle iv)" "sin (iv_angle iv) \<noteq> 0"
  shows "\<exists>r0 r1. ivec_compute iv 0 = Some r0 \<and> ivec_compute iv 1 = Some r1 \<and>
           vtx_x r0 = vtx_x (iv_v1 iv) \<and> vtx_y r0 = vtx_y (iv_v1 iv) \<and>
           vtx_vx r0 = vtx_vx (iv_v1 iv) \<and> vtx_vy r0 = vtx_vy (iv_v1 iv) \<and>
           vtx_vz r0 = vtx_vz (iv_v1 iv) \<and>
           vtx_x r1 = vtx_x (iv_v2 iv) \<and> vtx_y r1 = vtx_y (iv_v2 iv) \<and>
           vtx_vx r1 = vtx_vx (iv_v2 iv) \<and> vtx_vy r1 = vtx_vy (iv_v2 iv) \<and>
           vtx_vz r1 = vtx_vz (iv_v2 iv)"
  using assms unfolding ivec_compute_def Let_def zero_vertex_def
  by (simp add: imodes_distinct)

lemma compute_double:
  assumes "iv_mode iv = IMODE_DOUBLE"
  shows "\<exists>r0 r1. ivec_compute iv 0 = Some r0 \<and> ivec_compute iv 1 = Some r1 \<and>
           vtx_x r0 = vtx_x (iv_v1 iv) \<and> vtx_y r0 = vtx_y (iv_v1 iv) \<and>
           vtx_vx r0 = vtx_vx (iv_v1 iv) \<and> vtx_vy r0 = vtx_vy (iv_v1 iv) \<and>
           vtx_vz r0 = vtx_vz (iv_v1 iv) \<and>
           vtx_x r1 = vtx_x (iv_v2 iv) \<and> vtx_y r1 = vtx_y (iv_v2 iv) \<and>
           vtx_vx r1 = vtx_vx (iv_v2 iv) \<and> vtx_vy r1 = vtx_vy (iv_v2 iv) \<and>
           vtx_vz r1 = vtx_vz (iv_v2 iv)"
  using assms unfolding ivec_compute_def Let_def zero_vertex_def
  by (simp add: imodes_distinct)

text \<open>
  Claim C8.  For valid vertices \<open>va\<close> and \<open>vb\<close>, \<open>ivec_init\<close> builds an
  interpolator in one of the four modes, and in exact real arithmetic evaluating it at
  \<open>t = 0\<close> yields the position and attribute of \<open>va\<close> and evaluating it at
  \<open>t = 1\<close> those of \<open>vb\<close>.
\<close>

theorem ivec_endpoints:
  assumes "vertex_valid s va" "vertex_valid s vb"
  shows "\<exists>iv r0 r1. ivec_init s va vb = Some iv \<and>
           (iv_mode iv = IMODE_SCALAR \<or> iv_mode iv = IMODE_VLINEAR \<or>
            iv_mode iv = IMODE_SLERP \<or> iv_mode iv = IMODE_DOUBLE) \<and>
           ivec_compute iv 0 = Some r0 \<and> ivec_compute iv 1 = Some r1 \<and>
           same_position_attribute s r0 va \<and> same_position_attribute s r1 vb"
proof (cases "m_inter s = INTER_SCALAR")
  case True
  define iv where "iv = \<lparr>iv_v1 = va, iv_v2 = vb, iv_mode = IMODE_SCALAR, iv_angle = 0, iv_denom = 0\<rparr>"
  have i: "ivec_init s va vb = Some iv"
    unfolding ivec_init_def checkVertex_def Let_def iv_def using True by simp
  have "iv_mode iv = IMODE_SCALAR" "- 1 \<le> vtx_v (iv_v1 iv)" "vtx_v (iv_v1 iv) \<le> 1"
    "- 1 \<le> vtx_v (iv_v2 iv)" "vtx_v (iv_v2 iv) \<le> 1"
    using assms True unfolding vertex_valid_def iv_def by simp_all
  from compute_scalar [OF this] i True show ?thesis
    unfolding same_position_attribute_def iv_def by auto
next
  case False
  with assms(1) have vec: "m_inter s = INTER_VECTOR" unfolding vertex_valid_def by simp
  define d where "d = (vtx_vx va * vtx_vx vb) + (vtx_vy va * vtx_vy vb) + (vtx_vz va * vtx_vz vb)"
  define ang where "ang = arccos (if \<not> (d \<ge> - 1) then - 1 else if \<not> (d \<le> 1) then 1 else d)"
  define piv where "piv = \<lparr>iv_v1 = va, iv_v2 = vb, iv_mode = 0, iv_angle = 0, iv_denom = 0\<rparr>"
  have unf: "ivec_init s va vb =
      (if ang \<ge> MIN_SLERP_ANGLE \<and> ang \<le> MAX_SLERP_ANGLE then
         Some (piv\<lparr>iv_mode := IMODE_SLERP, iv_angle := ang, iv_denom := sin ang\<rparr>)
       else if ang < MIN_SLERP_ANGLE then Some (piv\<lparr>iv_mode := IMODE_VLINEAR\<rparr>)
       else if ang > MAX_SLERP_ANGLE then Some (piv\<lparr>iv_mode := IMODE_DOUBLE\<rparr>)
       else None)"
    unfolding ivec_init_def checkVertex_def Let_def d_def ang_def piv_def
    using vec False by simp
  have attr: "same_position_attribute s r v \<longleftrightarrow>
      (vtx_x r = vtx_x v \<and> vtx_y r = vtx_y v \<and>
       vtx_vx r = vtx_vx v \<and> vtx_vy r = vtx_vy v \<and> vtx_vz r = vtx_vz v)" for r v
    unfolding same_position_attribute_def using False by simp
  consider (slerp) "ang \<ge> MIN_SLERP_ANGLE \<and> ang \<le> MAX_SLERP_ANGLE"
    | (lin) "ang < MIN_SLERP_ANGLE" | (dbl) "\<not> ang < MIN_SLERP_ANGLE" "ang > MAX_SLERP_ANGLE"
    by linarith
  then show ?thesis
  proof cases
    case slerp
    define iv where "iv = piv\<lparr>iv_mode := IMODE_SLERP, iv_angle := ang, iv_denom := sin ang\<rparr>"
    have i: "ivec_init s va vb = Some iv" unfolding unf iv_def using slerp by simp
    have nz: "sin ang \<noteq> 0" using slerp slerp_angle_sin by blast
    have "iv_mode iv = IMODE_SLERP" "iv_denom iv = sin (iv_angle iv)" "sin (iv_angle iv) \<noteq> 0"
      unfolding iv_def using nz by simp_all
    from compute_slerp [OF this] i show ?thesis
      unfolding attr by (auto simp add: iv_def piv_def)
  next
    case lin
    define iv where "iv = piv\<lparr>iv_mode := IMODE_VLINEAR\<rparr>"
    have i: "ivec_init s va vb = Some iv" unfolding unf iv_def using lin by simp
    have "iv_mode iv = IMODE_VLINEAR" unfolding iv_def by simp
    from compute_vlinear [OF this] i show ?thesis
      unfolding attr by (auto simp add: iv_def piv_def)
  next
    case dbl
    define iv where "iv = piv\<lparr>iv_mode := IMODE_DOUBLE\<rparr>"
    have i: "ivec_init s va vb = Some iv" unfolding unf iv_def using dbl by auto
    have "iv_mode iv = IMODE_DOUBLE" unfolding iv_def by simp
    from compute_double [OF this] i show ?thesis
      unfolding attr by (auto simp add: iv_def piv_def)
  qed
qed

lemma vector_vertices_valid:
  "vertex_valid vector_state vertex_east" "vertex_valid vector_state vertex_west"
  "vertex_valid vector_state vertex_up"
  by (simp_all add: vertex_valid_def vector_state_def vertex_east_def vertex_west_def
        vertex_up_def INTER_SCALAR_def INTER_VECTOR_def)

lemma pi_not_le_zero: "\<not> pi \<le> 0"
  using pi_gt_zero by linarith

lemma vector_modes:
  "map_option iv_mode (ivec_init vector_state vertex_east vertex_up) = Some IMODE_SLERP"
  "map_option iv_mode (ivec_init vector_state vertex_up vertex_up) = Some IMODE_VLINEAR"
  "map_option iv_mode (ivec_init vector_state vertex_east vertex_west) = Some IMODE_DOUBLE"
  by (simp_all add: pi_not_le_zero ivec_init_def checkVertex_def vector_state_def vertex_east_def vertex_west_def
        vertex_up_def INTER_SCALAR_def INTER_VECTOR_def MIN_SLERP_ANGLE_def MAX_SLERP_ANGLE_def
        Let_def)

lemma scalar_vertices_valid:
  "vertex_valid scalar_state vertex_low" "vertex_valid scalar_state vertex_high"
  by (simp_all add: vertex_valid_def scalar_state_def vertex_low_def vertex_high_def)

lemma scalar_mode:
  "map_option iv_mode (ivec_init scalar_state vertex_low vertex_high) = Some IMODE_SCALAR"
  by (simp add: ivec_init_def checkVertex_def scalar_state_def Let_def)

theorem ivec_endpoints_witness:
  "(\<exists>iv r0 r1. ivec_init scalar_state vertex_low vertex_high = Some iv \<and>
       iv_mode iv = IMODE_SCALAR \<and>
       ivec_compute iv 0 = Some r0 \<and> ivec_compute iv 1 = Some r1 \<and>
       same_position_attribute scalar_state r0 vertex_low \<and>
       same_position_attribute scalar_state r1 vertex_high) \<and>
   (\<exists>iv r0 r1. ivec_init vector_state vertex_east vertex_up = Some iv \<and>
       iv_mode iv = IMODE_SLERP \<and>
       ivec_compute iv 0 = Some r0 \<and> ivec_compute iv 1 = Some r1 \<and>
       same_position_attribute vector_state r0 vertex_east \<and>
       same_position_attribute vector_state r1 vertex_up) \<and>
   (\<exists>iv r0 r1. ivec_init vector_state vertex_up vertex_up = Some iv \<and>
       iv_mode iv = IMODE_VLINEAR \<and>
       ivec_compute iv 0 = Some r0 \<and> ivec_compute iv 1 = Some r1 \<and>
       same_position_attribute vector_state r0 vertex_up \<and>
       same_position_attribute vector_state r1 vertex_up) \<and>
   (\<exists>iv r0 r1. ivec_init vector_state vertex_east vertex_west = Some iv \<and>
       iv_mode iv = IMODE_DOUBLE \<and>
       ivec_compute iv 0 = Some r0 \<and> ivec_compute iv 1 = Some r1 \<and>
       same_position_attribute vector_state r0 vertex_east \<and>
       same_position_attribute vector_state r1 vertex_west)"
proof -
  have a: "\<exists>iv r0 r1. ivec_init scalar_state vertex_low vertex_high = Some iv \<and>
       iv_mode iv = IMODE_SCALAR \<and>
       ivec_compute iv 0 = Some r0 \<and> ivec_compute iv 1 = Some r1 \<and>
       same_position_attribute scalar_state r0 vertex_low \<and>
       same_position_attribute scalar_state r1 vertex_high"
    using ivec_endpoints [OF scalar_vertices_valid(1) scalar_vertices_valid(2)] scalar_mode
    by auto
  have b: "\<exists>iv r0 r1. ivec_init vector_state vertex_east vertex_up = Some iv \<and>
       iv_mode iv = IMODE_SLERP \<and>
       ivec_compute iv 0 = Some r0 \<and> ivec_compute iv 1 = Some r1 \<and>
       same_position_attribute vector_state r0 vertex_east \<and>
       same_position_attribute vector_state r1 vertex_up"
    using ivec_endpoints [OF vector_vertices_valid(1) vector_vertices_valid(3)] vector_modes(1)
    by auto
  have c: "\<exists>iv r0 r1. ivec_init vector_state vertex_up vertex_up = Some iv \<and>
       iv_mode iv = IMODE_VLINEAR \<and>
       ivec_compute iv 0 = Some r0 \<and> ivec_compute iv 1 = Some r1 \<and>
       same_position_attribute vector_state r0 vertex_up \<and>
       same_position_attribute vector_state r1 vertex_up"
    using ivec_endpoints [OF vector_vertices_valid(3) vector_vertices_valid(3)] vector_modes(2)
    by auto
  have d: "\<exists>iv r0 r1. ivec_init vector_state vertex_east vertex_west = Some iv \<and>
       iv_mode iv = IMODE_DOUBLE \<and>
       ivec_compute iv 0 = Some r0 \<and> ivec_compute iv 1 = Some r1 \<and>
       same_position_attribute vector_state r0 vertex_east \<and>
       same_position_attribute vector_state r1 vertex_west"
    using ivec_endpoints [OF vector_vertices_valid(1) vector_vertices_valid(2)] vector_modes(3)
    by auto
  from a b c d show ?thesis by blast
qed

end
